theory Spec2Isabelle
  imports Main "HOL-Library.Word" "HOL-Library.Signed_Division"
begin

section \<open>The cache balancer of buffer\_cache/alt/cache\_balancer.cc\<close>

text \<open>
  A shallow embedding of \<^verbatim>\<open>alt_cache_balancer_t\<close>. Unsigned 64-bit quantities
  (\<^verbatim>\<open>uint64_t\<close>) are \<open>64 word\<close>; \<^verbatim>\<open>int64_t\<close> quantities are the same words,
  read with \<open>sint\<close> and compared with \<open><s\<close>, so that every conversion between the
  two is the identity on bits and signed arithmetic wraps around, as on the two's
  complement machines the code runs on. Pointers to evicters are natural numbers, and
  the evicter objects live in a store.
\<close>

type_synonym u64 = "64 word"
type_synonym evicter_ptr = nat

subsection \<open>Constants\<close>

definition rebalance_check_interval_ms :: u64 where
  "rebalance_check_interval_ms = 20"

definition rebalance_access_count_threshold :: u64 where
  "rebalance_access_count_threshold = 100"

definition rebalance_timeout_ms :: u64 where
  "rebalance_timeout_ms = 500"

definition read_ahead_ratio_numerator :: u64 where
  "read_ahead_ratio_numerator = 9"

definition read_ahead_ratio_denominator :: u64 where
  "read_ahead_ratio_denominator = 10"

subsection \<open>Double precision arithmetic\<close>

text \<open>
  The sizing formula runs on \<^verbatim>\<open>double\<close>. Every value it meets is finite and not
  negative, so a double is modelled by a significand and a binary exponent, the pair
  \<open>(m, e)\<close> standing for \<open>m * 2 ^ e\<close>. Each operation computes the exact result
  and rounds it to 53 significant bits, to nearest with ties to even, as IEEE 754
  binary64 arithmetic does in its default rounding mode. The operands come from
  64-bit integers, so quotients lie above \<open>2 ^ -64\<close> and products below \<open>2 ^ 128\<close>:
  the exponent never leaves the normal range of binary64 and is left unbounded here.
\<close>

type_synonym double = "nat \<times> int"

fun bitlen :: "nat \<Rightarrow> nat" where
  "bitlen n = (if n = 0 then 0 else Suc (bitlen (n div 2)))"

declare bitlen.simps [simp del]

text \<open>The fraction \<open>a / b\<close> scaled by \<open>2 ^ s\<close>, kept as a fraction of naturals.\<close>

definition scale2 :: "nat \<Rightarrow> nat \<Rightarrow> int \<Rightarrow> nat \<times> nat" where
  "scale2 a b s = (if 0 \<le> s then (a * 2 ^ nat s, b) else (a, b * 2 ^ nat (- s)))"

text \<open>The integer nearest to \<open>n / d\<close>, ties to the even one.\<close>

definition nearest_even :: "nat \<Rightarrow> nat \<Rightarrow> nat" where
  "nearest_even n d =
     (let q = n div d; r = n mod d
      in if 2 * r < d then q
         else if d < 2 * r then q + 1
         else if even q then q else q + 1)"

text \<open>
  \<open>round_double a b e\<close> is the double nearest to \<open>(a / b) * 2 ^ e\<close>: the fraction is
  scaled into \<open>[2 ^ 52, 2 ^ 53)\<close> and rounded to an integer there.
\<close>

definition round_double :: "nat \<Rightarrow> nat \<Rightarrow> int \<Rightarrow> double" where
  "round_double a b e =
     (if a = 0 then (0, 0)
      else let s1 = 53 - (int (bitlen a) - int (bitlen b));
               (n1, d1) = scale2 a b s1;
               s = (if 2 ^ 53 * d1 \<le> n1 then s1 - 1 else s1);
               (n, d) = scale2 a b s
           in (nearest_even n d, e - s))"

text \<open>\<^verbatim>\<open>static_cast<double>(x)\<close> for an unsigned 64-bit \<open>x\<close>.\<close>

definition double_of_u64 :: "u64 \<Rightarrow> double" where
  "double_of_u64 x = round_double (unat x) 1 0"

text \<open>
  Division and multiplication. The divisor is the total cache size, which the caller
  has checked to be positive.
\<close>

definition double_div :: "double \<Rightarrow> double \<Rightarrow> double" where
  "double_div x y = round_double (fst x) (fst y) (snd x - snd y)"

definition double_mul :: "double \<Rightarrow> double \<Rightarrow> double" where
  "double_mul x y = round_double (fst x * fst y) 1 (snd x + snd y)"

text \<open>The integer part of a double.\<close>

definition double_trunc :: "double \<Rightarrow> nat" where
  "double_trunc x =
     (if 0 \<le> snd x then fst x * 2 ^ nat (snd x) else fst x div 2 ^ nat (- snd x))"

text \<open>
  \<^verbatim>\<open>static_cast<int64_t>(temp)\<close> truncates towards zero. A value of \<open>2 ^ 63\<close> or more
  does not fit; C++ leaves that conversion undefined, and the x86-64 conversion
  instruction returns \<open>- 2 ^ 63\<close> for it, which is what the model returns.
\<close>

definition int64_of_double :: "double \<Rightarrow> u64" where
  "int64_of_double x =
     (if double_trunc x < 2 ^ 63 then word_of_nat (double_trunc x) else - (2 ^ 63))"

subsection \<open>Snapshot records\<close>

text \<open>
  Modelled from the spec: the fields of \<^verbatim>\<open>cache_data_t\<close>, which is declared in
  cache\_balancer.hpp, not among the sources. The spec lists the fields, and the evicter
  interface they are filled from returns unsigned 64-bit values; the code casts
  \<open>new_size\<close> to \<^verbatim>\<open>int64_t\<close> before it adds \<open>delta\<close>.
\<close>

record cache_data_t =
  evicter :: evicter_ptr
  new_size :: u64
  old_size :: u64
  bytes_loaded :: u64

subsection \<open>Calculating the new cache sizes\<close>

text \<open>
  The body of the sizing loop for one record: \<open>temp\<close> is the share of the loaded bytes
  attributed to the record's old size, and the new size is computed in \<^verbatim>\<open>int64_t\<close>
  and clamped at zero with \<^verbatim>\<open>std::max<int64_t>\<close>.
\<close>

definition attributed_load :: "u64 \<Rightarrow> u64 \<Rightarrow> u64 \<Rightarrow> double" where
  "attributed_load cache_size total_bytes_loaded old =
     double_mul (double_div (double_of_u64 old) (double_of_u64 cache_size))
                (double_of_u64 total_bytes_loaded)"

definition calc_new_size :: "u64 \<Rightarrow> u64 \<Rightarrow> cache_data_t \<Rightarrow> u64" where
  "calc_new_size cache_size total_bytes_loaded data =
     (let temp = attributed_load cache_size total_bytes_loaded (old_size data);
          n0 = bytes_loaded data;
          n1 = n0 - int64_of_double temp;
          n2 = n1 + old_size data
      in if n2 <s 0 then 0 else n2)"

definition calc_record :: "u64 \<Rightarrow> u64 \<Rightarrow> cache_data_t \<Rightarrow> cache_data_t" where
  "calc_record cache_size total_bytes_loaded data =
     data\<lparr>new_size := calc_new_size cache_size total_bytes_loaded data\<rparr>"

text \<open>The sizing of every record of every thread, in order.\<close>

definition calc_new_sizes ::
  "u64 \<Rightarrow> u64 \<Rightarrow> cache_data_t list list \<Rightarrow> cache_data_t list list" where
  "calc_new_sizes cache_size total_bytes_loaded per_thread_data =
     map (map (calc_record cache_size total_bytes_loaded)) per_thread_data"

text \<open>\<^verbatim>\<open>total_new_sizes\<close>, accumulated in \<^verbatim>\<open>uint64_t\<close>.\<close>

definition sum_new_sizes :: "cache_data_t list list \<Rightarrow> u64" where
  "sum_new_sizes per_thread_data = sum_list (map new_size (concat per_thread_data))"

subsection \<open>Distributing the rounding error\<close>

text \<open>\<^verbatim>\<open>int64_t\<close> division truncates towards zero.\<close>

definition int64_div :: "u64 \<Rightarrow> u64 \<Rightarrow> u64" where
  "int64_div a b = word_of_int (sint a sdiv sint b)"

definition calc_delta :: "u64 \<Rightarrow> nat \<Rightarrow> u64" where
  "calc_delta extra_bytes total_evicters =
     (let delta = int64_div extra_bytes (word_of_nat total_evicters)
      in if delta = 0 then (if extra_bytes <s 0 then - 1 else 1) else delta)"

text \<open>
  The inner \<^verbatim>\<open>for\<close> loop over the records of one thread. It stops as soon as
  \<open>extra_bytes\<close> is zero; the pair returned is \<open>extra_bytes\<close> and the records.
\<close>

fun distribute_thread :: "u64 \<Rightarrow> u64 \<Rightarrow> cache_data_t list \<Rightarrow> u64 \<times> cache_data_t list" where
  "distribute_thread delta extra_bytes [] = (extra_bytes, [])"
| "distribute_thread delta extra_bytes (data # rest) =
     (if extra_bytes = 0 then (extra_bytes, data # rest)
      else if 0 \<le>s new_size data + delta then
        (let (extra', rest') = distribute_thread delta (extra_bytes - delta) rest
         in (extra', data\<lparr>new_size := new_size data + delta\<rparr> # rest'))
      else
        (let (extra', rest') = distribute_thread delta (extra_bytes + new_size data) rest
         in (extra', data\<lparr>new_size := 0\<rparr> # rest')))"

text \<open>The outer \<^verbatim>\<open>for\<close> loop over the threads, with the same stopping test.\<close>

fun distribute_pass ::
  "u64 \<Rightarrow> u64 \<Rightarrow> cache_data_t list list \<Rightarrow> u64 \<times> cache_data_t list list" where
  "distribute_pass delta extra_bytes [] = (extra_bytes, [])"
| "distribute_pass delta extra_bytes (thread # threads) =
     (if extra_bytes = 0 then (extra_bytes, thread # threads)
      else
        (let (extra1, thread') = distribute_thread delta extra_bytes thread;
             (extra2, threads') = distribute_pass delta extra1 threads
         in (extra2, thread' # threads')))"

text \<open>
  The \<^verbatim>\<open>while (extra_bytes != 0)\<close> loop. It may run forever, so it is a partial
  function: \<open>None\<close> stands for a loop that does not return.
\<close>

partial_function (option) distribute_extra ::
  "nat \<Rightarrow> u64 \<Rightarrow> cache_data_t list list \<Rightarrow> cache_data_t list list option" where
  "distribute_extra total_evicters extra_bytes per_thread_data =
     (if extra_bytes = 0 then Some per_thread_data
      else
        (let delta = calc_delta extra_bytes total_evicters;
             (extra', data') = distribute_pass delta extra_bytes per_thread_data
         in distribute_extra total_evicters extra' data'))"

declare distribute_extra.simps [code]

text \<open>
  The sizing block as a whole: the new sizes, then
  \<^verbatim>\<open>extra_bytes = total_cache_size - total_new_sizes\<close>, then the loop. The
  parameter \<open>cache_size\<close> is the balancer's \<^verbatim>\<open>total_cache_size\<close>.
\<close>

definition rebalance_sizes ::
  "u64 \<Rightarrow> nat \<Rightarrow> u64 \<Rightarrow> cache_data_t list list \<Rightarrow> cache_data_t list list option" where
  "rebalance_sizes cache_size total_evicters total_bytes_loaded per_thread_data =
     (let sized = calc_new_sizes cache_size total_bytes_loaded per_thread_data;
          total_new_sizes = sum_new_sizes sized
      in distribute_extra total_evicters (cache_size - total_new_sizes) sized)"

subsection \<open>Evicters, threads and the balancer\<close>

text \<open>
  Modelled from the spec: \<^verbatim>\<open>alt::evicter_t\<close> is defined in buffer\_cache/alt/evicter.hpp,
  which is not among the sources. The spec gives the balancer four operations on an
  evicter: its current memory limit, the bytes loaded since the last snapshot, its
  current in-memory footprint, and a setter for the memory limit.
\<close>

record evicter_t =
  memory_limit :: u64
  bytes_loaded_counter :: u64
  in_memory :: u64

definition get_memory_limit :: "evicter_t \<Rightarrow> u64" where
  "get_memory_limit ev = memory_limit ev"

definition get_bytes_loaded :: "evicter_t \<Rightarrow> u64" where
  "get_bytes_loaded ev = bytes_loaded_counter ev"

definition in_memory_size :: "evicter_t \<Rightarrow> u64" where
  "in_memory_size ev = in_memory ev"

definition update_memory_limit :: "u64 \<Rightarrow> evicter_t \<Rightarrow> evicter_t" where
  "update_memory_limit new_limit ev = ev\<lparr>memory_limit := new_limit\<rparr>"

text \<open>
  Modelled from the spec: the fields of \<^verbatim>\<open>thread_info_t\<close>, declared in
  cache\_balancer.hpp: the access counter, an unsigned 64-bit integer, and the set of
  registered evicters of one thread. Its mutex is not modelled; every operation below
  runs to its end before the next one starts.
\<close>

record thread_info_t =
  access_count :: u64
  evicters :: "evicter_ptr set"

text \<open>
  Modelled from the spec: the fields of the balancer object, declared in
  cache\_balancer.hpp. \<^verbatim>\<open>microtime_t\<close> is declared outside the sources and the spec
  calls \<open>last_rebalance_time\<close> a timestamp; it is an unsigned 64-bit number of
  microseconds here, of the same type as the timeout that the code adds to it.
  \<open>pool_queue\<close> counts the requests handed to the queue with \<^verbatim>\<open>give_value\<close>; the
  type of the queue is declared outside the sources as well. The constructor in the
  source fixes the first values of the fields.
\<close>

record alt_cache_balancer_t =
  total_cache_size :: u64
  last_rebalance_time :: u64
  read_ahead_ok :: bool
  thread_info :: "thread_info_t list"
  pool_queue :: nat

text \<open>The balancer together with the store that the evicter pointers point into.\<close>

record system_t = alt_cache_balancer_t +
  evicter_heap :: "evicter_ptr \<Rightarrow> evicter_t"

text \<open>The constructor, for \<open>num_threads\<close> threads.\<close>

definition new_balancer :: "u64 \<Rightarrow> nat \<Rightarrow> (evicter_ptr \<Rightarrow> evicter_t) \<Rightarrow> system_t" where
  "new_balancer cache_size num_threads heap =
     \<lparr>total_cache_size = cache_size,
      last_rebalance_time = 0,
      read_ahead_ok = True,
      thread_info = replicate num_threads \<lparr>access_count = 0, evicters = {}\<rparr>,
      pool_queue = 0,
      evicter_heap = heap\<rparr>"

text \<open>
  Registration. \<open>threadnum\<close> is the thread the caller runs on. A failed
  \<^verbatim>\<open>guarantee\<close> stops the process: the result is \<open>None\<close>.
\<close>

definition add_evicter :: "nat \<Rightarrow> evicter_ptr \<Rightarrow> system_t \<Rightarrow> system_t option" where
  "add_evicter threadnum ev s =
     (if threadnum < length (thread_info s) \<and> ev \<notin> evicters (thread_info s ! threadnum)
      then Some (s\<lparr>thread_info := (thread_info s)[threadnum :=
                  (thread_info s ! threadnum)\<lparr>evicters :=
                     insert ev (evicters (thread_info s ! threadnum))\<rparr>]\<rparr>)
      else None)"

definition remove_evicter :: "nat \<Rightarrow> evicter_ptr \<Rightarrow> system_t \<Rightarrow> system_t option" where
  "remove_evicter threadnum ev s =
     (if threadnum < length (thread_info s) \<and> ev \<in> evicters (thread_info s ! threadnum)
      then Some (s\<lparr>thread_info := (thread_info s)[threadnum :=
                  (thread_info s ! threadnum)\<lparr>evicters :=
                     evicters (thread_info s ! threadnum) - {ev}\<rparr>]\<rparr>)
      else None)"

definition notify_access :: "nat \<Rightarrow> system_t \<Rightarrow> system_t option" where
  "notify_access threadnum s =
     (if threadnum < length (thread_info s)
      then Some (s\<lparr>thread_info := (thread_info s)[threadnum :=
                  (thread_info s ! threadnum)\<lparr>access_count :=
                     access_count (thread_info s ! threadnum) + 1\<rparr>]\<rparr>)
      else None)"

subsection \<open>The timer tick\<close>

text \<open>\<^verbatim>\<open>total_accesses\<close>, summed in \<^verbatim>\<open>uint64_t\<close> over the threads in order.\<close>

definition total_accesses :: "thread_info_t list \<Rightarrow> u64" where
  "total_accesses infos = foldl (\<lambda>acc info. acc + access_count info) 0 infos"

text \<open>
  \<^verbatim>\<open>on_ring\<close>, with the current time as an argument. The sum of the time of the last
  pass and the timeout is a \<^verbatim>\<open>uint64_t\<close> and wraps around.
\<close>

definition on_ring :: "u64 \<Rightarrow> system_t \<Rightarrow> system_t" where
  "on_ring now s =
     (if now < last_rebalance_time s + rebalance_timeout_ms * 1000
         \<and> total_accesses (thread_info s) < rebalance_access_count_threshold
      then s
      else s\<lparr>last_rebalance_time := now, pool_queue := pool_queue s + 1\<rparr>)"

subsection \<open>The rebalance pass\<close>

text \<open>The constructor of \<^verbatim>\<open>cache_data_t\<close>, reading the evicter through its pointer.\<close>

definition cache_data :: "(evicter_ptr \<Rightarrow> evicter_t) \<Rightarrow> evicter_ptr \<Rightarrow> cache_data_t" where
  "cache_data heap ev =
     \<lparr>evicter = ev,
      new_size = 0,
      old_size = get_memory_limit (heap ev),
      bytes_loaded = get_bytes_loaded (heap ev)\<rparr>"

text \<open>
  The snapshot of one thread: one record for each evicter of the set, in the order of
  the set's iteration, which is the order of the pointers.
\<close>

definition snapshot_thread :: "(evicter_ptr \<Rightarrow> evicter_t) \<Rightarrow> thread_info_t \<Rightarrow> cache_data_t list" where
  "snapshot_thread heap info = map (cache_data heap) (sorted_list_of_set (evicters info))"

definition snapshot :: "system_t \<Rightarrow> cache_data_t list list" where
  "snapshot s = map (snapshot_thread (evicter_heap s)) (thread_info s)"

definition count_evicters :: "system_t \<Rightarrow> nat" where
  "count_evicters s = sum_list (map (\<lambda>info. card (evicters info)) (thread_info s))"

definition sum_bytes_loaded :: "cache_data_t list list \<Rightarrow> u64" where
  "sum_bytes_loaded per_thread_data = sum_list (map bytes_loaded (concat per_thread_data))"

text \<open>
  The loop of \<^verbatim>\<open>apply_rebalance_to_thread\<close> over the records of one thread: a record
  whose evicter is no longer in the thread's set is passed over.
\<close>

fun apply_sizes ::
  "evicter_ptr set \<Rightarrow> cache_data_t list \<Rightarrow> (evicter_ptr \<Rightarrow> evicter_t) \<Rightarrow> u64
     \<Rightarrow> (evicter_ptr \<Rightarrow> evicter_t) \<times> u64" where
  "apply_sizes evs [] heap usage = (heap, usage)"
| "apply_sizes evs (it # rest) heap usage =
     (if evicter it \<in> evs then
        (let heap' = heap(evicter it := update_memory_limit (new_size it) (heap (evicter it)))
         in apply_sizes evs rest heap' (usage + in_memory_size (heap' (evicter it))))
      else apply_sizes evs rest heap usage)"

text \<open>
  \<^verbatim>\<open>apply_rebalance_to_thread\<close>. An index outside one of the three arrays is an
  error, \<open>None\<close>; the pass only calls it with indices inside.
\<close>

definition apply_rebalance_to_thread ::
  "nat \<Rightarrow> cache_data_t list list \<Rightarrow> u64 list \<Rightarrow> system_t \<Rightarrow> (system_t \<times> u64 list) option" where
  "apply_rebalance_to_thread index new_sizes cache_in_use s =
     (if index < length (thread_info s) \<and> index < length new_sizes
         \<and> index < length cache_in_use
      then
        (let info = thread_info s ! index;
             (heap', total_cache_usage) =
                apply_sizes (evicters info) (new_sizes ! index) (evicter_heap s) 0
         in Some (s\<lparr>thread_info := (thread_info s)[index := info\<lparr>access_count := 0\<rparr>],
                    evicter_heap := heap'\<rparr>,
                  cache_in_use[index := total_cache_usage]))
      else None)"

text \<open>
  \<^verbatim>\<open>pmap\<close> runs the body once for each index. The bodies touch disjoint parts of the
  state (their own thread's entry, their own slot of \<open>cache_in_use\<close>, the evicters of
  their own thread), so they are run one after the other here.
\<close>

fun pmap_apply ::
  "nat list \<Rightarrow> cache_data_t list list \<Rightarrow> u64 list \<Rightarrow> system_t \<Rightarrow> (system_t \<times> u64 list) option" where
  "pmap_apply [] new_sizes cache_in_use s = Some (s, cache_in_use)"
| "pmap_apply (index # rest) new_sizes cache_in_use s =
     (case apply_rebalance_to_thread index new_sizes cache_in_use s of
        None \<Rightarrow> None
      | Some (s', cache_in_use') \<Rightarrow> pmap_apply rest new_sizes cache_in_use' s')"

text \<open>
  The dispatch of a pass: \<open>cache_in_use\<close> has one slot for each thread. It starts
  uninitialised in the source and every slot is written by the dispatch before it is
  read; it starts as zeros here.
\<close>

definition dispatch :: "cache_data_t list list \<Rightarrow> system_t \<Rightarrow> (system_t \<times> u64 list) option" where
  "dispatch per_thread_data s =
     pmap_apply [0..<length per_thread_data] per_thread_data
       (replicate (length (thread_info s)) 0) s"

text \<open>The update of \<open>read_ahead_ok\<close> at the end of a pass.\<close>

definition update_read_ahead :: "u64 list \<Rightarrow> system_t \<Rightarrow> system_t" where
  "update_read_ahead cache_in_use s =
     (if read_ahead_ok s then
        (let cache_usage = foldl (+) 0 cache_in_use
         in s\<lparr>read_ahead_ok :=
              cache_usage * read_ahead_ratio_denominator
                < total_cache_size s * read_ahead_ratio_numerator\<rparr>)
      else s)"

text \<open>
  What the rest of the system does while a pass is suspended, and between passes:
  registration and removal of evicters, access notifications, timer ticks, and the
  creation and the activity of the evicters themselves, which may leave an evicter in
  any state.
\<close>

datatype env_event =
  Add_evicter nat evicter_ptr
| Remove_evicter nat evicter_ptr
| Notify_access nat
| Ring u64
| Evicter_activity evicter_ptr evicter_t

fun env_step :: "env_event \<Rightarrow> system_t \<Rightarrow> system_t option" where
  "env_step (Add_evicter threadnum ev) s = add_evicter threadnum ev s"
| "env_step (Remove_evicter threadnum ev) s = remove_evicter threadnum ev s"
| "env_step (Notify_access threadnum) s = notify_access threadnum s"
| "env_step (Ring now) s = Some (on_ring now s)"
| "env_step (Evicter_activity ev state) s =
     Some (s\<lparr>evicter_heap := (evicter_heap s)(ev := state)\<rparr>)"

fun env_steps :: "env_event list \<Rightarrow> system_t \<Rightarrow> system_t option" where
  "env_steps [] s = Some s"
| "env_steps (ev # rest) s =
     (case env_step ev s of None \<Rightarrow> None | Some s' \<Rightarrow> env_steps rest s')"

text \<open>
  \<^verbatim>\<open>coro_pool_callback\<close>: the snapshot, the sizes, the dispatch to the threads and the
  update of \<open>read_ahead_ok\<close>. The pass is suspended while it moves to the other
  threads; \<open>interleaved\<close> is what the rest of the system does between the snapshot and
  the dispatch. The result is \<open>None\<close> when the pass does not return, or when one of
  the interleaved operations stops the process.
\<close>

definition coro_pool_callback :: "env_event list \<Rightarrow> system_t \<Rightarrow> system_t option" where
  "coro_pool_callback interleaved s =
     (let per_thread_data = snapshot s;
          total_evicters = count_evicters s;
          total_bytes_loaded = sum_bytes_loaded per_thread_data
      in if 0 < total_cache_size s \<and> 0 < total_evicters then
           (case rebalance_sizes (total_cache_size s) total_evicters total_bytes_loaded
                   per_thread_data of
              None \<Rightarrow> None
            | Some sized \<Rightarrow>
                (case env_steps interleaved s of
                   None \<Rightarrow> None
                 | Some s1 \<Rightarrow>
                     (case dispatch sized s1 of
                        None \<Rightarrow> None
                      | Some (s2, cache_in_use) \<Rightarrow> Some (update_read_ahead cache_in_use s2))))
         else Some s)"

text \<open>A run of the system: passes, and everything else in between.\<close>

datatype event = Env env_event | Rebalance "env_event list"

fun step :: "event \<Rightarrow> system_t \<Rightarrow> system_t option" where
  "step (Env ev) s = env_step ev s"
| "step (Rebalance interleaved) s = coro_pool_callback interleaved s"

fun run :: "event list \<Rightarrow> system_t \<Rightarrow> system_t option" where
  "run [] s = Some s"
| "run (ev # rest) s = (case step ev s of None \<Rightarrow> None | Some s' \<Rightarrow> run rest s')"

subsection \<open>Quantities the properties are stated with\<close>

text \<open>
  The new size of a record as a number, and the sums of the new sizes over a thread and
  over all threads. These are sums of numbers: they do not wrap around.
\<close>

definition size_of :: "cache_data_t \<Rightarrow> int" where
  "size_of r = uint (new_size r)"

definition thread_total :: "cache_data_t list \<Rightarrow> int" where
  "thread_total xs = sum_list (map size_of xs)"

definition sizes_total :: "cache_data_t list list \<Rightarrow> int" where
  "sizes_total d = sum_list (map thread_total d)"

text \<open>
  The sizing formula in the words of the specification,
  \<^verbatim>\<open>new_size = max(0, bytes_loaded + old_size - round(old_size / total_cache_size * total_bytes_loaded))\<close>,
  on numbers that do not wrap around: \<open>double_nearest\<close> rounds a double to the
  nearest integer, halves away from zero, as \<^verbatim>\<open>round\<close> does.
\<close>

definition double_nearest :: "double \<Rightarrow> nat" where
  "double_nearest x =
     (if 0 \<le> snd x then fst x * 2 ^ nat (snd x)
      else (fst x + 2 ^ (nat (- snd x) - 1)) div 2 ^ nat (- snd x))"


text \<open>
  The sum of the access counters and the sum of the usage accumulators as numbers,
  which do not wrap around.
\<close>

definition access_sum :: "thread_info_t list \<Rightarrow> int" where
  "access_sum infos = (\<Sum>info\<leftarrow>infos. uint (access_count info))"

definition usage_sum :: "u64 list \<Rightarrow> int" where
  "usage_sum cache_in_use = (\<Sum>usage\<leftarrow>cache_in_use. uint usage)"

text \<open>The records with every new size set to the old size.\<close>

definition keep_old_sizes :: "cache_data_t list list \<Rightarrow> cache_data_t list list" where
  "keep_old_sizes per_thread_data = map (map (\<lambda>r. r\<lparr>new_size := old_size r\<rparr>)) per_thread_data"

text \<open>
  The invariant of the distribution loop: the new sizes and \<open>extra_bytes\<close> add up to
  the cache size \<open>T\<close>, everything fits into a signed 64-bit integer, and
  \<open>total_evicters\<close> is the number of records, which is not zero.
\<close>

definition dist_inv :: "int \<Rightarrow> nat \<Rightarrow> u64 \<Rightarrow> cache_data_t list list \<Rightarrow> bool" where
  "dist_inv T n e d \<longleftrightarrow>
     sizes_total d + sint e = T \<and> 0 \<le> T \<and> T < 2 ^ 63 \<and> sizes_total d < 2 ^ 63
     \<and> n = length (concat d) \<and> 1 \<le> n \<and> n < 2 ^ 63"

subsection \<open>Example states\<close>


text \<open>
  Three evicters on three threads, the second thread without any; the sizes that the
  formula gives them add up to 1011, eleven bytes more than the cache of 1000 bytes.
\<close>

definition uneven_snapshot :: "cache_data_t list list" where
  "uneven_snapshot =
     [[\<lparr>evicter = 0, new_size = 0, old_size = 600, bytes_loaded = 3\<rparr>,
       \<lparr>evicter = 1, new_size = 0, old_size = 400, bytes_loaded = 4\<rparr>],
      [],
      [\<lparr>evicter = 2, new_size = 0, old_size = 10, bytes_loaded = 0\<rparr>]]"

definition uneven_sized :: "cache_data_t list list" where
  "uneven_sized =
     [[\<lparr>evicter = 0, new_size = 599, old_size = 600, bytes_loaded = 3\<rparr>,
       \<lparr>evicter = 1, new_size = 402, old_size = 400, bytes_loaded = 4\<rparr>],
      [],
      [\<lparr>evicter = 2, new_size = 10, old_size = 10, bytes_loaded = 0\<rparr>]]"

text \<open>Two evicters without load whose limits add up to the cache size.\<close>

definition idle_snapshot :: "cache_data_t list list" where
  "idle_snapshot =
     [[\<lparr>evicter = 0, new_size = 0, old_size = 600, bytes_loaded = 0\<rparr>],
      [\<lparr>evicter = 1, new_size = 0, old_size = 400, bytes_loaded = 0\<rparr>]]"

text \<open>
  A balancer with one thread and one evicter, which holds 920 bytes in memory, and a
  cache of 1000 bytes; the same balancer after a pass; and one without any cache.
\<close>

definition example_heap :: "evicter_ptr \<Rightarrow> evicter_t" where
  "example_heap = (\<lambda>_. \<lparr>memory_limit = 1000, bytes_loaded_counter = 0, in_memory = 920\<rparr>)"

definition example_system :: system_t where
  "example_system =
     \<lparr>total_cache_size = 1000, last_rebalance_time = 0, read_ahead_ok = True,
      thread_info = [\<lparr>access_count = 5, evicters = {0}\<rparr>], pool_queue = 0,
      evicter_heap = example_heap\<rparr>"

definition example_after :: system_t where
  "example_after =
     example_system\<lparr>thread_info := [\<lparr>access_count = 0, evicters = {0}\<rparr>],
       evicter_heap := example_heap(0 := example_heap 0\<lparr>memory_limit := 1000\<rparr>),
       read_ahead_ok := False\<rparr>"

definition empty_system :: system_t where
  "empty_system = example_system\<lparr>total_cache_size := 0\<rparr>"

text \<open>
  A balancer whose cache size times nine is two more than \<open>2 ^ 64\<close>, with one evicter
  that holds a single byte in memory; and the same balancer after a pass.
\<close>

definition wide_heap :: "evicter_ptr \<Rightarrow> evicter_t" where
  "wide_heap =
     (\<lambda>_. \<lparr>memory_limit = 2049638230412172402, bytes_loaded_counter = 0, in_memory = 1\<rparr>)"

definition wide_system :: system_t where
  "wide_system =
     \<lparr>total_cache_size = 2049638230412172402, last_rebalance_time = 0, read_ahead_ok = True,
      thread_info = [\<lparr>access_count = 0, evicters = {0}\<rparr>], pool_queue = 0,
      evicter_heap = wide_heap\<rparr>"

definition wide_after :: system_t where
  "wide_after = wide_system\<lparr>read_ahead_ok := False\<rparr>"

text \<open>
  A balancer whose last pass was at the last microsecond that 64 bits can count, and one
  with two threads of \<open>2 ^ 63\<close> accesses each.
\<close>

definition late_system :: system_t where
  "late_system = example_system\<lparr>last_rebalance_time := 2 ^ 64 - 1\<rparr>"

definition crowded_system :: system_t where
  "crowded_system =
     example_system\<lparr>thread_info := [\<lparr>access_count = 2 ^ 63, evicters = {0}\<rparr>,
                                      \<lparr>access_count = 2 ^ 63, evicters = {}\<rparr>]\<rparr>"

text \<open>
  What a pass leaves alone: the flag, the cache size and the number of threads are
  touched by nothing but the last step of a pass.
\<close>

definition frame_of :: "system_t \<Rightarrow> bool \<times> u64 \<times> nat" where
  "frame_of s = (read_ahead_ok s, total_cache_size s, length (thread_info s))"

section \<open>Machine arithmetic\<close>

lemma sint_add_in_range:
  fixes a b :: u64
  assumes "- (2 ^ 63) \<le> sint a + sint b" "sint a + sint b < 2 ^ 63"
  shows "sint (a + b) = sint a + sint b"
  using assms by (simp add: sint_word_ariths signed_take_bit_int_eq_self)

lemma sint_sub_in_range:
  fixes a b :: u64
  assumes "- (2 ^ 63) \<le> sint a - sint b" "sint a - sint b < 2 ^ 63"
  shows "sint (a - b) = sint a - sint b"
  using assms by (simp add: sint_word_ariths signed_take_bit_int_eq_self)

lemma sint_eq_uint_small:
  fixes a :: u64
  assumes "uint a < 2 ^ 63"
  shows "sint a = uint a"
proof -
  have "- (2 ^ 63) \<le> uint a"
    by (rule order_trans [of _ 0]) simp_all
  then have "signed_take_bit 63 (uint a) = uint a"
    using assms by (rule signed_take_bit_int_eq_self)
  then show ?thesis by (simp add: sint_uint)
qed

lemma uint_eq_sint_nonneg:
  fixes a :: u64
  assumes "0 \<le> sint a"
  shows "uint a = sint a"
proof -
  have "sint a < 2 ^ 63" using sint_lt [of a] by simp
  then have "take_bit 64 (sint a) = sint a"
    using assms by (simp add: take_bit_int_eq_self)
  then show ?thesis by (simp add: uint_sint)
qed

lemma sint_word_of_int_in_range:
  assumes "- (2 ^ 63) \<le> k" "k < 2 ^ 63"
  shows "sint (word_of_int k :: u64) = k"
  using assms by (simp add: signed_of_int signed_take_bit_int_eq_self)

lemma sint_word_of_nat_in_range:
  assumes "n < 2 ^ 63"
  shows "sint (word_of_nat n :: u64) = int n"
  using assms by (simp add: signed_of_nat signed_take_bit_int_eq_self)

lemma sint_zero_iff:
  fixes a :: u64
  shows "sint a = 0 \<longleftrightarrow> a = 0"
  by (simp add: signed_eq_0_iff)




lemma size_of_nonneg: "0 \<le> size_of r"
  by (simp add: size_of_def)

lemma thread_total_nonneg: "0 \<le> thread_total xs"
  by (induction xs) (simp_all add: thread_total_def size_of_nonneg)

lemma sizes_total_nonneg: "0 \<le> sizes_total d"
  by (induction d) (simp_all add: sizes_total_def thread_total_nonneg)

lemma thread_total_Cons: "thread_total (r # xs) = size_of r + thread_total xs"
  by (simp add: thread_total_def)

lemma thread_total_Nil: "thread_total [] = 0"
  by (simp add: thread_total_def)

lemma sizes_total_Cons: "sizes_total (t # ts) = thread_total t + sizes_total ts"
  by (simp add: sizes_total_def)

lemma sizes_total_Nil: "sizes_total [] = 0"
  by (simp add: sizes_total_def)

lemma share_le:
  fixes d E :: int
  assumes "0 \<le> d" and "d = 1 \<or> int (Suc n) * d \<le> E" and "1 \<le> E"
  shows "d \<le> E"
proof (cases "d = 1")
  case True
  then show ?thesis using assms(3) by simp
next
  case False
  then have k: "int (Suc n) * d \<le> E" using assms(2) by blast
  have "1 * d \<le> int (Suc n) * d"
    using assms(1) by (intro mult_right_mono) simp_all
  then show ?thesis using k by linarith
qed

lemma share_rest:
  fixes d E :: int
  assumes "d = 1 \<or> int (Suc n) * d \<le> E"
  shows "d = 1 \<or> int n * d \<le> E - d"
proof (cases "d = 1")
  case True
  then show ?thesis by simp
next
  case False
  then have k: "int (Suc n) * d \<le> E" using assms by blast
  have "int (Suc n) * d = int n * d + d" by (simp add: algebra_simps)
  then show ?thesis using k by linarith
qed

lemma share_zero:
  fixes d :: int
  assumes "1 \<le> d" and "d = 1 \<or> int (Suc n) * d \<le> 0"
  shows "d = 1"
proof (rule ccontr)
  assume "d \<noteq> 1"
  then have k: "int (Suc n) * d \<le> 0" using assms(2) by blast
  have "1 * d \<le> int (Suc n) * d"
    using assms(1) by (intro mult_right_mono) simp_all
  then show False using k assms(1) by linarith
qed

section \<open>One walk over the records\<close>

text \<open>A step that hands out a positive \<open>delta\<close>.\<close>

lemma step_pos:
  fixes e d ns :: u64
  assumes d: "1 \<le> sint d" and de: "sint d \<le> sint e"
    and b: "uint ns + sint e < 2 ^ 63"
  shows "0 \<le>s ns + d" "uint (ns + d) = uint ns + sint d" "sint (e - d) = sint e - sint d"
proof -
  have u: "0 \<le> uint ns" by simp
  have ns: "sint ns = uint ns"
    using b u de d by (intro sint_eq_uint_small) linarith
  have s: "sint (ns + d) = uint ns + sint d"
    using sint_add_in_range [of ns d] ns b u de d by simp
  then show "0 \<le>s ns + d" using u d by (simp add: word_sle_eq)
  have "0 \<le> sint (ns + d)" using s u d by simp
  then show "uint (ns + d) = uint ns + sint d"
    using s uint_eq_sint_nonneg [of "ns + d"] by simp
  have "sint e < 2 ^ 63" using sint_lt [of e] by simp
  then show "sint (e - d) = sint e - sint d"
    using sint_sub_in_range [of e d] d de by simp
qed

lemma distribute_thread_pos:
  assumes "distribute_thread d e xs = (e', xs')"
    and "1 \<le> sint d" and "0 \<le> sint e"
    and "sint d = 1 \<or> int (length xs + m) * sint d \<le> sint e"
    and "\<forall>r\<in>set xs. size_of r + sint e < 2 ^ 63"
  shows "0 \<le> sint e' \<and> sint e' \<le> sint e
     \<and> (sint d = 1 \<or> int m * sint d \<le> sint e')
     \<and> thread_total xs' + sint e' = thread_total xs + sint e
     \<and> (xs \<noteq> [] \<and> e \<noteq> 0 \<longrightarrow> sint e' < sint e)"
  using assms
proof (induction xs arbitrary: e e' xs')
  case Nil
  then show ?case by simp
next
  case (Cons r rest)
  have d1: "1 \<le> sint d" by (rule Cons.prems(2))
  have sh: "sint d = 1 \<or> int (Suc (length rest + m)) * sint d \<le> sint e"
    using Cons.prems(4) by simp
  show ?case
  proof (cases "e = 0")
    case True
    have "sint d = 1"
      using share_zero [OF d1, of "length rest + m"] sh True by simp
    with True Cons.prems(1) show ?thesis by simp
  next
    case False
    then have epos: "1 \<le> sint e"
      using Cons.prems(3) sint_zero_iff [of e] by linarith
    have de: "sint d \<le> sint e"
      using share_le [OF _ sh epos] d1 by simp
    have b: "uint (new_size r) + sint e < 2 ^ 63"
      using Cons.prems(5) by (simp add: size_of_def)
    note st = step_pos [OF d1 de b]
    obtain e1 rest1 where rec: "distribute_thread d (e - d) rest = (e1, rest1)"
      by (cases "distribute_thread d (e - d) rest")
    from Cons.prems(1) False st(1) rec
    have res: "e' = e1" "xs' = r\<lparr>new_size := new_size r + d\<rparr> # rest1"
      by simp_all
    have p3: "0 \<le> sint (e - d)" using st(3) de by simp
    have p4: "sint d = 1 \<or> int (length rest + m) * sint d \<le> sint (e - d)"
      using share_rest [OF sh] st(3) by simp
    have p5: "\<forall>r\<in>set rest. size_of r + sint (e - d) < 2 ^ 63"
      using Cons.prems(5) st(3) d1 by fastforce
    note ih = Cons.IH [OF rec d1 p3 p4 p5]
    have tot: "thread_total xs' = size_of r + sint d + thread_total rest1"
      using res(2) st(2) by (simp add: thread_total_Cons size_of_def)
    show ?thesis
      using ih res(1) tot st(3) d1 by (simp add: thread_total_Cons)
  qed
qed


text \<open>A step that takes back: \<open>delta\<close> is negative.\<close>

lemma step_neg:
  fixes e d ns :: u64
  assumes d: "sint d \<le> - 1" and de: "sint e \<le> sint d"
    and b: "uint ns < 2 ^ 63"
  shows "(0 \<le>s ns + d) = (0 \<le> uint ns + sint d)"
    "0 \<le> uint ns + sint d \<Longrightarrow> uint (ns + d) = uint ns + sint d"
    "sint (e - d) = sint e - sint d"
    "uint ns + sint d < 0 \<Longrightarrow> sint (e + ns) = sint e + uint ns"
proof -
  have u: "0 \<le> uint ns" by simp
  have ns: "sint ns = uint ns"
    using b by (rule sint_eq_uint_small)
  have dl: "- (2 ^ 63) \<le> sint d" using sint_ge [of d] by simp
  have el: "- (2 ^ 63) \<le> sint e" using sint_ge [of e] by simp
  have "- (2 ^ 63) \<le> sint ns + sint d" "sint ns + sint d < 2 ^ 63"
    using ns b u d dl by linarith+
  then have "sint (ns + d) = sint ns + sint d"
    by (rule sint_add_in_range)
  then have s: "sint (ns + d) = uint ns + sint d"
    using ns by simp
  then show "(0 \<le>s ns + d) = (0 \<le> uint ns + sint d)"
    by (simp add: word_sle_eq)
  show "uint (ns + d) = uint ns + sint d" if "0 \<le> uint ns + sint d"
    using s that uint_eq_sint_nonneg [of "ns + d"] by simp
  have "- (2 ^ 63) \<le> sint e - sint d" "sint e - sint d < 2 ^ 63"
    using d de el by linarith+
  then show "sint (e - d) = sint e - sint d"
    by (rule sint_sub_in_range)
  show "sint (e + ns) = sint e + uint ns" if "uint ns + sint d < 0"
  proof -
    have "- (2 ^ 63) \<le> sint e + sint ns" "sint e + sint ns < 2 ^ 63"
      using ns that u el de d by linarith+
    then have "sint (e + ns) = sint e + sint ns"
      by (rule sint_add_in_range)
    then show ?thesis using ns by simp
  qed
qed

lemma distribute_thread_neg:
  assumes "distribute_thread d e xs = (e', xs')"
    and "sint d \<le> - 1" and "sint e \<le> 0"
    and "- sint d = 1 \<or> int (length xs + m) * (- sint d) \<le> - sint e"
    and "\<forall>r\<in>set xs. size_of r < 2 ^ 63"
  shows "sint e \<le> sint e' \<and> sint e' \<le> 0
     \<and> (- sint d = 1 \<or> int m * (- sint d) \<le> - sint e')
     \<and> thread_total xs' + sint e' = thread_total xs + sint e
     \<and> (0 < thread_total xs \<and> e \<noteq> 0 \<longrightarrow> sint e < sint e')"
  using assms
proof (induction xs arbitrary: e e' xs')
  case Nil
  then show ?case by (simp add: thread_total_Nil)
next
  case (Cons r rest)
  have d1: "sint d \<le> - 1" by (rule Cons.prems(2))
  then have d1': "1 \<le> - sint d" by simp
  have sh: "- sint d = 1 \<or> int (Suc (length rest + m)) * (- sint d) \<le> - sint e"
    using Cons.prems(4) by simp
  have rs: "\<forall>r\<in>set rest. size_of r < 2 ^ 63"
    using Cons.prems(5) by simp
  show ?case
  proof (cases "e = 0")
    case True
    have "- sint d = 1"
      using share_zero [OF d1', of "length rest + m"] sh True by simp
    with True Cons.prems(1) show ?thesis by simp
  next
    case False
    then have eneg: "1 \<le> - sint e"
      using Cons.prems(3) sint_zero_iff [of e] by linarith
    have "- sint d \<le> - sint e"
      using share_le [OF _ sh eneg] d1' by simp
    then have de: "sint e \<le> sint d" by simp
    have b: "uint (new_size r) < 2 ^ 63"
      using Cons.prems(5) by (simp add: size_of_def)
    note st = step_neg [OF d1 de b]
    show ?thesis
    proof (cases "0 \<le> uint (new_size r) + sint d")
      case True
      obtain e1 rest1 where rec: "distribute_thread d (e - d) rest = (e1, rest1)"
        by (cases "distribute_thread d (e - d) rest")
      from Cons.prems(1) False st(1) True rec
      have res: "e' = e1" "xs' = r\<lparr>new_size := new_size r + d\<rparr> # rest1"
        by simp_all
      have p3: "sint (e - d) \<le> 0" using st(3) de by simp
      have p4: "- sint d = 1 \<or> int (length rest + m) * (- sint d) \<le> - sint (e - d)"
        using share_rest [OF sh] st(3) by simp
      note ih = Cons.IH [OF rec d1 p3 p4 rs]
      have tot: "thread_total xs' = size_of r + sint d + thread_total rest1"
        using res(2) st(2) [OF True] by (simp add: thread_total_Cons size_of_def)
      show ?thesis
        using ih res(1) tot st(3) d1 by (simp add: thread_total_Cons)
    next
      case neg: False
      then have lt: "uint (new_size r) + sint d < 0" by simp
      obtain e1 rest1 where rec: "distribute_thread d (e + new_size r) rest = (e1, rest1)"
        by (cases "distribute_thread d (e + new_size r) rest")
      from Cons.prems(1) False st(1) neg rec
      have res: "e' = e1" "xs' = r\<lparr>new_size := 0\<rparr> # rest1"
        by simp_all
      note se = st(4) [OF lt]
      have u: "0 \<le> uint (new_size r)" by simp
      have p3: "sint (e + new_size r) \<le> 0" using se lt de by linarith
      have p4: "- sint d = 1 \<or> int (length rest + m) * (- sint d) \<le> - sint (e + new_size r)"
        using share_rest [OF sh] se lt by auto
      note ih = Cons.IH [OF rec d1 p3 p4 rs]
      have tot: "thread_total xs' = thread_total rest1"
        using res(2) by (simp add: thread_total_Cons size_of_def)
      have strict: "sint e < sint e'" if "0 < thread_total (r # rest)"
      proof (cases "uint (new_size r) = 0")
        case True
        then have "new_size r = 0" by (simp add: unsigned_eq_0_iff)
        then have "e + new_size r \<noteq> 0" using False by simp
        moreover have "0 < thread_total rest"
          using that True by (simp add: thread_total_Cons size_of_def)
        ultimately show ?thesis using ih res(1) se True by simp
      next
        case False
        then have "0 < uint (new_size r)" using u by linarith
        moreover have "sint (e + new_size r) \<le> sint e1" using ih by blast
        ultimately show ?thesis unfolding res(1) using se by linarith
      qed
      from ih have i1: "sint (e + new_size r) \<le> sint e1" and i2: "sint e1 \<le> 0"
        and i3: "- sint d = 1 \<or> int m * (- sint d) \<le> - sint e1"
        and i4: "thread_total rest1 + sint e1 = thread_total rest + sint (e + new_size r)"
        by blast+
      have c1: "sint e \<le> sint e1" using i1 se u by linarith
      have c4: "thread_total xs' + sint e1 = thread_total (r # rest) + sint e"
        using i4 tot se by (simp add: thread_total_Cons size_of_def)
      show ?thesis
        unfolding res(1) using c1 i2 i3 c4 strict res(1) by blast
    qed
  qed
qed

lemma distribute_thread_Nil_eq: "distribute_thread d e [] = (e, [])"
  by simp

lemma distribute_pass_pos:
  assumes "distribute_pass d e ts = (e', ts')"
    and "1 \<le> sint d" and "0 \<le> sint e"
    and "sint d = 1 \<or> int (length (concat ts) + m) * sint d \<le> sint e"
    and "\<forall>r\<in>set (concat ts). size_of r + sint e < 2 ^ 63"
  shows "0 \<le> sint e' \<and> sint e' \<le> sint e
     \<and> (sint d = 1 \<or> int m * sint d \<le> sint e')
     \<and> sizes_total ts' + sint e' = sizes_total ts + sint e
     \<and> (concat ts \<noteq> [] \<and> e \<noteq> 0 \<longrightarrow> sint e' < sint e)"
  using assms
proof (induction ts arbitrary: e e' ts')
  case Nil
  then show ?case by simp
next
  case (Cons t ts)
  have d1: "1 \<le> sint d" by (rule Cons.prems(2))
  show ?case
  proof (cases "e = 0")
    case True
    have "sint d = 1 \<or> int (length (concat (t # ts)) + m) * sint d \<le> 0"
      using Cons.prems(4) True by simp
    moreover have "int m * sint d \<le> int (length (concat (t # ts)) + m) * sint d"
      using d1 by (intro mult_right_mono) simp_all
    ultimately have "sint d = 1 \<or> int m * sint d \<le> 0" by linarith
    with True Cons.prems(1) show ?thesis by simp
  next
    case False
    obtain e1 t1 where th: "distribute_thread d e t = (e1, t1)"
      by (cases "distribute_thread d e t")
    obtain e2 ts2 where rec: "distribute_pass d e1 ts = (e2, ts2)"
      by (cases "distribute_pass d e1 ts")
    from Cons.prems(1) False th rec have res: "e' = e2" "ts' = t1 # ts2"
      by simp_all
    have q4: "sint d = 1 \<or> int (length t + (length (concat ts) + m)) * sint d \<le> sint e"
      using Cons.prems(4) by (simp add: add.assoc)
    have q5: "\<forall>r\<in>set t. size_of r + sint e < 2 ^ 63"
      using Cons.prems(5) by simp
    note tl = distribute_thread_pos [OF th d1 Cons.prems(3) q4 q5]
    from tl have t1: "0 \<le> sint e1" and t2: "sint e1 \<le> sint e"
      and t3: "sint d = 1 \<or> int (length (concat ts) + m) * sint d \<le> sint e1"
      and t4: "thread_total t1 + sint e1 = thread_total t + sint e"
      and t5: "t \<noteq> [] \<Longrightarrow> sint e1 < sint e"
      using False by blast+
    have p5: "\<forall>r\<in>set (concat ts). size_of r + sint e1 < 2 ^ 63"
    proof
      fix r assume "r \<in> set (concat ts)"
      then have "size_of r + sint e < 2 ^ 63" using Cons.prems(5) by simp
      then show "size_of r + sint e1 < 2 ^ 63" using t2 by linarith
    qed
    note ih = Cons.IH [OF rec d1 t1 t3 p5]
    from ih have i1: "0 \<le> sint e2" and i2: "sint e2 \<le> sint e1"
      and i3: "sint d = 1 \<or> int m * sint d \<le> sint e2"
      and i4: "sizes_total ts2 + sint e2 = sizes_total ts + sint e1"
      and i5: "concat ts \<noteq> [] \<Longrightarrow> e1 \<noteq> 0 \<Longrightarrow> sint e2 < sint e1"
      by blast+
    have c2: "sint e2 \<le> sint e" using i2 t2 by linarith
    have c4: "sizes_total ts' + sint e2 = sizes_total (t # ts) + sint e"
      using i4 t4 res(2) by (simp add: sizes_total_Cons)
    have c5: "sint e2 < sint e" if "concat (t # ts) \<noteq> []"
    proof (cases "t = []")
      case True
      then have "e1 = e" using th by simp
      moreover have "concat ts \<noteq> []" using that True by simp
      ultimately show ?thesis using i5 False by simp
    next
      case False
      then show ?thesis using t5 i2 by linarith
    qed
    show ?thesis unfolding res(1) using i1 c2 i3 c4 c5 by blast
  qed
qed

lemma distribute_pass_neg:
  assumes "distribute_pass d e ts = (e', ts')"
    and "sint d \<le> - 1" and "sint e \<le> 0"
    and "- sint d = 1 \<or> int (length (concat ts) + m) * (- sint d) \<le> - sint e"
    and "\<forall>r\<in>set (concat ts). size_of r < 2 ^ 63"
  shows "sint e \<le> sint e' \<and> sint e' \<le> 0
     \<and> (- sint d = 1 \<or> int m * (- sint d) \<le> - sint e')
     \<and> sizes_total ts' + sint e' = sizes_total ts + sint e
     \<and> (0 < sizes_total ts \<and> e \<noteq> 0 \<longrightarrow> sint e < sint e')"
  using assms
proof (induction ts arbitrary: e e' ts')
  case Nil
  then show ?case by (simp add: sizes_total_Nil)
next
  case (Cons t ts)
  have d1: "sint d \<le> - 1" by (rule Cons.prems(2))
  then have d1': "0 \<le> - sint d" by simp
  show ?case
  proof (cases "e = 0")
    case True
    have "- sint d = 1 \<or> int (length (concat (t # ts)) + m) * (- sint d) \<le> 0"
      using Cons.prems(4) True by simp
    moreover have "int m * (- sint d) \<le> int (length (concat (t # ts)) + m) * (- sint d)"
      using d1' by (intro mult_right_mono) simp_all
    ultimately have "- sint d = 1 \<or> int m * (- sint d) \<le> 0" by linarith
    with True Cons.prems(1) show ?thesis by simp
  next
    case False
    obtain e1 t1 where th: "distribute_thread d e t = (e1, t1)"
      by (cases "distribute_thread d e t")
    obtain e2 ts2 where rec: "distribute_pass d e1 ts = (e2, ts2)"
      by (cases "distribute_pass d e1 ts")
    from Cons.prems(1) False th rec have res: "e' = e2" "ts' = t1 # ts2"
      by simp_all
    have q4: "- sint d = 1 \<or> int (length t + (length (concat ts) + m)) * (- sint d) \<le> - sint e"
      using Cons.prems(4) by (simp add: add.assoc)
    have q5: "\<forall>r\<in>set t. size_of r < 2 ^ 63"
      using Cons.prems(5) by simp
    note tl = distribute_thread_neg [OF th d1 Cons.prems(3) q4 q5]
    from tl have t1: "sint e1 \<le> 0" and t2: "sint e \<le> sint e1"
      and t3: "- sint d = 1 \<or> int (length (concat ts) + m) * (- sint d) \<le> - sint e1"
      and t4: "thread_total t1 + sint e1 = thread_total t + sint e"
      and t5: "0 < thread_total t \<Longrightarrow> sint e < sint e1"
      using False by blast+
    have p5: "\<forall>r\<in>set (concat ts). size_of r < 2 ^ 63"
      using Cons.prems(5) by simp
    note ih = Cons.IH [OF rec d1 t1 t3 p5]
    from ih have i1: "sint e2 \<le> 0" and i2: "sint e1 \<le> sint e2"
      and i3: "- sint d = 1 \<or> int m * (- sint d) \<le> - sint e2"
      and i4: "sizes_total ts2 + sint e2 = sizes_total ts + sint e1"
      and i5: "0 < sizes_total ts \<Longrightarrow> e1 \<noteq> 0 \<Longrightarrow> sint e1 < sint e2"
      by blast+
    have c2: "sint e \<le> sint e2" using i2 t2 by linarith
    have c4: "sizes_total ts' + sint e2 = sizes_total (t # ts) + sint e"
      using i4 t4 res(2) by (simp add: sizes_total_Cons)
    have c5: "sint e < sint e2" if "0 < sizes_total (t # ts)"
    proof (cases "0 < thread_total t")
      case True
      then show ?thesis using t5 i2 by linarith
    next
      case nt: False
      then have z: "thread_total t = 0" using thread_total_nonneg [of t] by linarith
      then have pos: "0 < sizes_total ts" using that by (simp add: sizes_total_Cons)
      show ?thesis
      proof (cases "e1 = 0")
        case True
        then have "sint e1 = 0" by simp
        moreover have "sint e < 0"
          using False Cons.prems(3) sint_zero_iff [of e] by linarith
        ultimately show ?thesis using i2 by linarith
      next
        case False
        then show ?thesis using i5 [OF pos] t2 by linarith
      qed
    qed
    show ?thesis unfolding res(1) using i1 c2 i3 c4 c5 by blast
  qed
qed

text \<open>The walk changes nothing but the \<open>new_size\<close> fields.\<close>

lemma distribute_thread_frame:
  "distribute_thread d e xs = (e', xs') \<Longrightarrow>
     map (\<lambda>r. r\<lparr>new_size := 0\<rparr>) xs' = map (\<lambda>r. r\<lparr>new_size := 0\<rparr>) xs"
proof (induction xs arbitrary: e e' xs')
  case Nil
  then show ?case by simp
next
  case (Cons r rest)
  then show ?case
    by (auto split: if_splits prod.splits)
qed

lemma distribute_pass_frame:
  "distribute_pass d e ts = (e', ts') \<Longrightarrow>
     map (map (\<lambda>r. r\<lparr>new_size := 0\<rparr>)) ts' = map (map (\<lambda>r. r\<lparr>new_size := 0\<rparr>)) ts"
proof (induction ts arbitrary: e e' ts')
  case Nil
  then show ?case by simp
next
  case (Cons t ts)
  then show ?case
    by (auto split: if_splits prod.splits dest: distribute_thread_frame)
qed

section \<open>The choice of delta\<close>

lemma int_div_facts:
  fixes k l :: int
  assumes "0 \<le> k" and "1 \<le> l"
  shows "0 \<le> k div l" and "l * (k div l) \<le> k" and "k div l \<le> k"
proof -
  show nn: "0 \<le> k div l"
    using assms by (simp add: pos_imp_zdiv_nonneg_iff)
  have "l * (k div l) + k mod l = k" by simp
  moreover have "0 \<le> k mod l" using assms(2) by simp
  ultimately show le: "l * (k div l) \<le> k" by linarith
  have "1 * (k div l) \<le> l * (k div l)"
    using assms(2) nn by (intro mult_right_mono) simp_all
  then show "k div l \<le> k" using le by linarith
qed

lemma int64_div_pos:
  assumes "1 \<le> sint e" and "1 \<le> n" and "n < 2 ^ 63"
  shows "sint (int64_div e (word_of_nat n)) = sint e div int n"
proof -
  have n: "sint (word_of_nat n :: u64) = int n"
    using assms(3) by (rule sint_word_of_nat_in_range)
  have q: "sint e sdiv int n = sint e div int n"
    using assms(1,2) by (simp add: signed_divide_int_def)
  have dv: "0 \<le> sint e div int n" "sint e div int n \<le> sint e"
    using assms(1,2) int_div_facts [of "sint e" "int n"] by simp_all
  have "sint e < 2 ^ 63" using sint_lt [of e] by simp
  with dv have "- (2 ^ 63) \<le> sint e div int n" "sint e div int n < 2 ^ 63"
    by linarith+
  then have "sint (word_of_int (sint e div int n) :: u64) = sint e div int n"
    by (rule sint_word_of_int_in_range)
  then show ?thesis by (simp add: int64_div_def n q)
qed

lemma int64_div_neg:
  assumes "sint e \<le> - 1" and "1 \<le> n" and "n < 2 ^ 63"
  shows "sint (int64_div e (word_of_nat n)) = - ((- sint e) div int n)"
proof -
  have n: "sint (word_of_nat n :: u64) = int n"
    using assms(3) by (rule sint_word_of_nat_in_range)
  have q: "sint e sdiv int n = - ((- sint e) div int n)"
    using assms(1,2) by (simp add: signed_divide_int_def)
  have dv: "0 \<le> (- sint e) div int n" "(- sint e) div int n \<le> - sint e"
    using assms(1,2) int_div_facts [of "- sint e" "int n"] by simp_all
  have "- (2 ^ 63) \<le> sint e" "(0::int) < 2 ^ 63" using sint_ge [of e] by simp_all
  with dv have "- (2 ^ 63) \<le> - ((- sint e) div int n)" "- ((- sint e) div int n) < 2 ^ 63"
    by linarith+
  then have "sint (word_of_int (- ((- sint e) div int n)) :: u64) = - ((- sint e) div int n)"
    by (rule sint_word_of_int_in_range)
  then show ?thesis by (simp add: int64_div_def n q)
qed

lemma calc_delta_pos:
  assumes "1 \<le> sint e" and "1 \<le> n" and "n < 2 ^ 63"
  shows "1 \<le> sint (calc_delta e n)"
    and "sint (calc_delta e n) = 1 \<or> int n * sint (calc_delta e n) \<le> sint e"
proof -
  let ?q = "int64_div e (word_of_nat n)"
  have q: "sint ?q = sint e div int n" using assms by (rule int64_div_pos)
  have nn: "0 \<le> sint e div int n" using assms(1,2) by (simp add: pos_imp_zdiv_nonneg_iff)
  have ns: "\<not> e <s 0" using assms(1) by (simp add: word_sless_alt)
  have le: "int n * (sint e div int n) \<le> sint e"
    using assms(1,2) int_div_facts(2) [of "sint e" "int n"] by simp
  show "1 \<le> sint (calc_delta e n)"
  proof (cases "?q = 0")
    case True
    then show ?thesis using ns by (simp add: calc_delta_def)
  next
    case False
    then have "sint ?q \<noteq> 0" by (simp add: sint_zero_iff)
    then have "1 \<le> sint ?q" using q nn by linarith
    then show ?thesis using False by (simp add: calc_delta_def)
  qed
  show "sint (calc_delta e n) = 1 \<or> int n * sint (calc_delta e n) \<le> sint e"
  proof (cases "?q = 0")
    case True
    then show ?thesis using ns by (simp add: calc_delta_def)
  next
    case False
    then have "calc_delta e n = ?q" by (simp add: calc_delta_def)
    then show ?thesis using q le by simp
  qed
qed

lemma calc_delta_neg:
  assumes "sint e \<le> - 1" and "1 \<le> n" and "n < 2 ^ 63"
  shows "sint (calc_delta e n) \<le> - 1"
    and "- sint (calc_delta e n) = 1 \<or> int n * (- sint (calc_delta e n)) \<le> - sint e"
proof -
  let ?q = "int64_div e (word_of_nat n)"
  have q: "sint ?q = - ((- sint e) div int n)" using assms by (rule int64_div_neg)
  have nn: "0 \<le> (- sint e) div int n" using assms(1,2) by (simp add: pos_imp_zdiv_nonneg_iff)
  have ns: "e <s 0" using assms(1) by (simp add: word_sless_alt)
  have le: "int n * ((- sint e) div int n) \<le> - sint e"
    using assms(1,2) int_div_facts(2) [of "- sint e" "int n"] by simp
  show "sint (calc_delta e n) \<le> - 1"
  proof (cases "?q = 0")
    case True
    then show ?thesis using ns by (simp add: calc_delta_def)
  next
    case False
    then have "sint ?q \<noteq> 0" by (simp add: sint_zero_iff)
    then have "sint ?q \<le> - 1" using q nn by linarith
    then show ?thesis using False by (simp add: calc_delta_def)
  qed
  show "- sint (calc_delta e n) = 1 \<or> int n * (- sint (calc_delta e n)) \<le> - sint e"
  proof (cases "?q = 0")
    case True
    then show ?thesis using ns by (simp add: calc_delta_def)
  next
    case False
    then have "calc_delta e n = ?q" by (simp add: calc_delta_def)
    then show ?thesis using q le by simp
  qed
qed

section \<open>The distribution loop returns\<close>

lemma size_of_le_thread_total: "r \<in> set xs \<Longrightarrow> size_of r \<le> thread_total xs"
proof (induction xs)
  case Nil
  then show ?case by simp
next
  case (Cons x xs)
  then show ?case
    using size_of_nonneg [of x] thread_total_nonneg [of xs]
    by (auto simp: thread_total_Cons)
qed

lemma size_of_le_sizes_total: "r \<in> set (concat d) \<Longrightarrow> size_of r \<le> sizes_total d"
proof (induction d)
  case Nil
  then show ?case by simp
next
  case (Cons t ts)
  from Cons.prems have "r \<in> set t \<or> r \<in> set (concat ts)" by simp
  then show ?case
  proof
    assume "r \<in> set t"
    then have "size_of r \<le> thread_total t" by (rule size_of_le_thread_total)
    then show ?thesis
      using sizes_total_nonneg [of ts] by (simp add: sizes_total_Cons)
  next
    assume "r \<in> set (concat ts)"
    then have "size_of r \<le> sizes_total ts" by (rule Cons.IH)
    then show ?thesis
      using thread_total_nonneg [of t] by (simp add: sizes_total_Cons)
  qed
qed


lemma frame_length_concat:
  assumes "map (map (\<lambda>r. r\<lparr>new_size := (0::u64)\<rparr>)) d' = map (map (\<lambda>r. r\<lparr>new_size := 0\<rparr>)) d"
  shows "length (concat d') = length (concat d)"
proof -
  have "length (concat (map (map (\<lambda>r. r\<lparr>new_size := (0::u64)\<rparr>)) d')) = length (concat d')"
    by (simp add: length_concat comp_def)
  moreover have "length (concat (map (map (\<lambda>r. r\<lparr>new_size := (0::u64)\<rparr>)) d)) = length (concat d)"
    by (simp add: length_concat comp_def)
  ultimately show ?thesis using assms by simp
qed

lemma distribute_pass_inv:
  assumes inv: "dist_inv T n e d" and ne: "e \<noteq> 0"
    and pass: "distribute_pass (calc_delta e n) e d = (e', d')"
  shows "dist_inv T n e' d'" and "\<bar>sint e'\<bar> < \<bar>sint e\<bar>"
proof -
  from inv have tot: "sizes_total d + sint e = T" and T0: "0 \<le> T" and T: "T < 2 ^ 63"
    and S: "sizes_total d < 2 ^ 63" and n: "n = length (concat d)"
    and n1: "1 \<le> n" and n2: "n < 2 ^ 63"
    by (simp_all add: dist_inv_def)
  have len: "length (concat d') = length (concat d)"
    using distribute_pass_frame [OF pass] by (rule frame_length_concat)
  have nonempty: "concat d \<noteq> []"
  proof
    assume a: "concat d = []"
    have "length (concat d) = 0" unfolding a by simp
    then show False using n n1 by linarith
  qed
  have "dist_inv T n e' d' \<and> \<bar>sint e'\<bar> < \<bar>sint e\<bar>"
  proof (cases "0 \<le> sint e")
    case True
    then have e1: "1 \<le> sint e" using ne sint_zero_iff [of e] by linarith
    note cd = calc_delta_pos [OF e1 n1 n2]
    have sh: "sint (calc_delta e n) = 1
        \<or> int (length (concat d) + 0) * sint (calc_delta e n) \<le> sint e"
      using cd(2) n by simp
    have b: "\<forall>r\<in>set (concat d). size_of r + sint e < 2 ^ 63"
    proof
      fix r assume "r \<in> set (concat d)"
      then have "size_of r \<le> sizes_total d" by (rule size_of_le_sizes_total)
      then show "size_of r + sint e < 2 ^ 63" using tot T by linarith
    qed
    note p = distribute_pass_pos [OF pass cd(1) True sh b]
    from p have p1: "0 \<le> sint e'" and p2: "sint e' < sint e"
      and p4: "sizes_total d' + sint e' = sizes_total d + sint e"
      using nonempty ne by blast+
    have "sizes_total d' < 2 ^ 63" using p4 p1 tot T by linarith
    then have "dist_inv T n e' d'"
      using p4 tot T0 T n n1 n2 len by (simp add: dist_inv_def)
    then show ?thesis using p1 p2 by simp
  next
    case False
    then have e1: "sint e \<le> - 1" by simp
    note cd = calc_delta_neg [OF e1 n1 n2]
    have sh: "- sint (calc_delta e n) = 1
        \<or> int (length (concat d) + 0) * (- sint (calc_delta e n)) \<le> - sint e"
      using cd(2) n by simp
    have b: "\<forall>r\<in>set (concat d). size_of r < 2 ^ 63"
    proof
      fix r assume "r \<in> set (concat d)"
      then have "size_of r \<le> sizes_total d" by (rule size_of_le_sizes_total)
      then show "size_of r < 2 ^ 63" using S by linarith
    qed
    have e0: "sint e \<le> 0" using e1 by simp
    note p = distribute_pass_neg [OF pass cd(1) e0 sh b]
    have "0 < sizes_total d" using tot T0 e1 by linarith
    with p have p1: "sint e' \<le> 0" and p2: "sint e < sint e'"
      and p4: "sizes_total d' + sint e' = sizes_total d + sint e"
      using ne by blast+
    have "sizes_total d' < 2 ^ 63" using p4 p2 S by linarith
    then have "dist_inv T n e' d'"
      using p4 tot T0 T n n1 n2 len by (simp add: dist_inv_def)
    then show ?thesis using p1 p2 by simp
  qed
  then show "dist_inv T n e' d'" and "\<bar>sint e'\<bar> < \<bar>sint e\<bar>" by simp_all
qed

lemma distribute_extra_total:
  assumes "dist_inv T n e d"
  shows "\<exists>d'. distribute_extra n e d = Some d' \<and> sizes_total d' = T
     \<and> map (map (\<lambda>r. r\<lparr>new_size := 0\<rparr>)) d' = map (map (\<lambda>r. r\<lparr>new_size := 0\<rparr>)) d"
  using assms
proof (induction "nat \<bar>sint e\<bar>" arbitrary: e d rule: less_induct)
  case less
  show ?case
  proof (cases "e = 0")
    case True
    have "distribute_extra n e d = Some d"
      using True by (subst distribute_extra.simps) simp
    moreover have "sizes_total d = T"
      using less.prems True by (simp add: dist_inv_def)
    ultimately show ?thesis by simp
  next
    case False
    obtain e' d' where pass: "distribute_pass (calc_delta e n) e d = (e', d')"
      by (cases "distribute_pass (calc_delta e n) e d")
    note pi = distribute_pass_inv [OF less.prems False pass]
    have "nat \<bar>sint e'\<bar> < nat \<bar>sint e\<bar>" using pi(2) by simp
    from less.hyps [OF this pi(1)]
    obtain d'' where r: "distribute_extra n e' d' = Some d''" "sizes_total d'' = T"
      "map (map (\<lambda>r. r\<lparr>new_size := 0\<rparr>)) d'' = map (map (\<lambda>r. r\<lparr>new_size := 0\<rparr>)) d'"
      by blast
    have "distribute_extra n e d = distribute_extra n e' d'"
      using False pass by (subst distribute_extra.simps) simp
    then show ?thesis using r distribute_pass_frame [OF pass] by simp
  qed
qed

section \<open>The sums and the first value of extra\_bytes\<close>

lemma uint_sum_new_size_mod:
  "uint (sum_list (map new_size xs)) = thread_total xs mod 2 ^ 64"
proof (induction xs)
  case Nil
  then show ?case by (simp add: thread_total_Nil)
next
  case (Cons r xs)
  have "uint (new_size r + sum_list (map new_size xs))
      = (uint (new_size r) + uint (sum_list (map new_size xs))) mod 2 ^ 64"
    by (simp add: uint_word_ariths)
  also have "\<dots> = (uint (new_size r) + thread_total xs mod 2 ^ 64) mod 2 ^ 64"
    using Cons.IH by simp
  also have "\<dots> = (uint (new_size r) + thread_total xs) mod 2 ^ 64"
    by (simp add: mod_add_right_eq)
  finally show ?case by (simp add: thread_total_Cons size_of_def)
qed

lemma sizes_total_concat: "sizes_total d = thread_total (concat d)"
  by (induction d) (simp_all add: sizes_total_def thread_total_def)

lemma uint_sum_new_sizes:
  assumes "sizes_total d < 2 ^ 64"
  shows "uint (sum_new_sizes d) = sizes_total d"
proof -
  have "uint (sum_new_sizes d) = sizes_total d mod 2 ^ 64"
    by (simp add: sum_new_sizes_def uint_sum_new_size_mod sizes_total_concat)
  then show ?thesis
    using assms sizes_total_nonneg [of d] by simp
qed

lemma dist_inv_initial:
  assumes T: "uint cap < 2 ^ 63" and S: "sizes_total d < 2 ^ 63"
    and n: "n = length (concat d)" "1 \<le> n" "n < 2 ^ 63"
  shows "dist_inv (uint cap) n (cap - sum_new_sizes d) d"
proof -
  have s64: "sizes_total d < 2 ^ 64" using S by simp
  have us: "uint (sum_new_sizes d) = sizes_total d"
    using s64 by (rule uint_sum_new_sizes)
  have st: "sint cap = uint cap" using T by (rule sint_eq_uint_small)
  have ss: "sint (sum_new_sizes d) = sizes_total d"
    using sint_eq_uint_small [of "sum_new_sizes d"] us S by simp
  have "- (2 ^ 63) \<le> sint cap - sint (sum_new_sizes d)"
    "sint cap - sint (sum_new_sizes d) < 2 ^ 63"
    using st ss T S sizes_total_nonneg [of d] uint_ge_0 [of cap] by linarith+
  then have "sint (cap - sum_new_sizes d) = sint cap - sint (sum_new_sizes d)"
    by (rule sint_sub_in_range)
  then have "sizes_total d + sint (cap - sum_new_sizes d) = uint cap"
    using st ss by simp
  then show ?thesis
    using T S n by (simp add: dist_inv_def)
qed

lemma new_sizes_in_range:
  assumes "sizes_total d = T" and "T < 2 ^ 63" and "r \<in> set (concat d)"
  shows "0 \<le> sint (new_size r)" and "uint (new_size r) \<le> T"
proof -
  have le: "size_of r \<le> T"
    using size_of_le_sizes_total [OF assms(3)] assms(1) by simp
  then show "uint (new_size r) \<le> T" by (simp add: size_of_def)
  have "uint (new_size r) < 2 ^ 63" using le assms(2) by (simp add: size_of_def)
  then have "sint (new_size r) = uint (new_size r)" by (rule sint_eq_uint_small)
  then show "0 \<le> sint (new_size r)" by simp
qed

section \<open>What the loop leaves alone, and when it cannot return\<close>

lemma distribute_extra_frame:
  assumes "distribute_extra n e d = Some d'"
  shows "map (map (\<lambda>r. r\<lparr>new_size := 0\<rparr>)) d' = map (map (\<lambda>r. r\<lparr>new_size := 0\<rparr>)) d"
proof -
  let ?F = "map (map (\<lambda>r::cache_data_t. r\<lparr>new_size := 0\<rparr>))"
  let ?P = "\<lambda>(n::nat) (e::u64) (d::cache_data_t list list) (y::cache_data_t list list).
              ?F y = ?F d"
  show ?thesis
  proof (rule distribute_extra.raw_induct [where P = ?P, OF _ assms])
    fix f n' e' d' y'
    assume IH: "\<And>n'' e'' d'' y''. f n'' e'' d'' = Some y'' \<Longrightarrow> ?F y'' = ?F d''"
      and eq: "(if e' = 0 then Some d'
                else let delta = calc_delta e' n';
                         (extra', data') = distribute_pass delta e' d'
                     in f n' extra' data') = Some y'"
    show "?F y' = ?F d'"
    proof (cases "e' = 0")
      case True
      with eq show ?thesis by simp
    next
      case False
      obtain e1 d1 where p: "distribute_pass (calc_delta e' n') e' d' = (e1, d1)"
        by (cases "distribute_pass (calc_delta e' n') e' d'")
      with eq False have "f n' e1 d1 = Some y'" by simp
      from IH [OF this] distribute_pass_frame [OF p] show ?thesis by simp
    qed
  qed
qed

lemma rebalance_sizes_length:
  assumes "rebalance_sizes cache_size n tbl d = Some sized"
  shows "length sized = length d"
proof -
  from assms have "distribute_extra n (cache_size - sum_new_sizes (calc_new_sizes cache_size tbl d))
      (calc_new_sizes cache_size tbl d) = Some sized"
    by (simp add: rebalance_sizes_def Let_def)
  from distribute_extra_frame [OF this]
  have "length (map (map (\<lambda>r. r\<lparr>new_size := (0::u64)\<rparr>)) sized)
      = length (map (map (\<lambda>r. r\<lparr>new_size := (0::u64)\<rparr>)) (calc_new_sizes cache_size tbl d))"
    by simp
  then show ?thesis by (simp add: calc_new_sizes_def)
qed

text \<open>
  Whenever the loop returns, the 64-bit sum of the new sizes is the cache size, whatever
  the inputs are.
\<close>

lemma distribute_thread_word_sum:
  "distribute_thread d e xs = (e', xs') \<Longrightarrow>
     sum_list (map new_size xs') + e' = sum_list (map new_size xs) + e"
proof (induction xs arbitrary: e e' xs')
  case Nil
  then show ?case by simp
next
  case (Cons r rest)
  then show ?case
    by (auto split: if_splits prod.splits)
qed

lemma distribute_pass_word_sum:
  "distribute_pass d e ts = (e', ts') \<Longrightarrow> sum_new_sizes ts' + e' = sum_new_sizes ts + e"
proof (induction ts arbitrary: e e' ts')
  case Nil
  then show ?case by simp
next
  case (Cons t ts)
  show ?case
  proof (cases "e = 0")
    case True
    with Cons.prems show ?thesis by simp
  next
    case False
    obtain e1 t1 where th: "distribute_thread d e t = (e1, t1)"
      by (cases "distribute_thread d e t")
    obtain e2 ts2 where rec: "distribute_pass d e1 ts = (e2, ts2)"
      by (cases "distribute_pass d e1 ts")
    from Cons.prems False th rec have res: "e' = e2" "ts' = t1 # ts2" by simp_all
    have a: "sum_new_sizes ts2 + e2 = sum_new_sizes ts + e1" using rec by (rule Cons.IH)
    have b: "sum_list (map new_size t1) + e1 = sum_list (map new_size t) + e"
      using th by (rule distribute_thread_word_sum)
    have "sum_new_sizes (t1 # ts2) + e2 = sum_list (map new_size t1) + (sum_new_sizes ts2 + e2)"
      by (simp add: sum_new_sizes_def)
    also have "\<dots> = (sum_list (map new_size t1) + e1) + sum_new_sizes ts"
      by (simp only: a) simp
    also have "\<dots> = sum_new_sizes (t # ts) + e"
      by (simp only: b) (simp add: sum_new_sizes_def)
    finally show ?thesis unfolding res .
  qed
qed

lemma distribute_extra_word_sum:
  assumes "distribute_extra n e d = Some d'"
  shows "sum_new_sizes d' = sum_new_sizes d + e"
proof -
  let ?P = "\<lambda>(n::nat) (e::u64) (d::cache_data_t list list) (y::cache_data_t list list).
              sum_new_sizes y = sum_new_sizes d + e"
  show ?thesis
  proof (rule distribute_extra.raw_induct [where P = ?P, OF _ assms])
    fix f n' e' d' y'
    assume IH: "\<And>n'' e'' d'' y''. f n'' e'' d'' = Some y'' \<Longrightarrow>
        sum_new_sizes y'' = sum_new_sizes d'' + e''"
      and eq: "(if e' = 0 then Some d'
                else let delta = calc_delta e' n';
                         (extra', data') = distribute_pass delta e' d'
                     in f n' extra' data') = Some y'"
    show "sum_new_sizes y' = sum_new_sizes d' + e'"
    proof (cases "e' = 0")
      case True
      with eq show ?thesis by simp
    next
      case False
      obtain e1 d1 where p: "distribute_pass (calc_delta e' n') e' d' = (e1, d1)"
        by (cases "distribute_pass (calc_delta e' n') e' d'")
      with eq False have "f n' e1 d1 = Some y'" by simp
      from IH [OF this] distribute_pass_word_sum [OF p] show ?thesis by simp
    qed
  qed
qed

lemma rebalance_sizes_word_sum:
  assumes "rebalance_sizes cache_size n tbl d = Some result"
  shows "sum_new_sizes result = cache_size"
proof -
  from assms have "distribute_extra n
      (cache_size - sum_new_sizes (calc_new_sizes cache_size tbl d))
      (calc_new_sizes cache_size tbl d) = Some result"
    by (simp add: rebalance_sizes_def Let_def)
  from distribute_extra_word_sum [OF this] show ?thesis by simp
qed

text \<open>A walk that changes nothing repeats itself for ever.\<close>

lemma distribute_extra_stuck:
  assumes ne: "e \<noteq> 0" and stay: "distribute_pass (calc_delta e n) e d = (e, d)"
  shows "distribute_extra n e d = None"
proof -
  let ?P = "\<lambda>(n'::nat) (e'::u64) (d'::cache_data_t list list) (y::cache_data_t list list).
              \<not> (n' = n \<and> e' = e \<and> d' = d)"
  have "?P n e d y" if ret: "distribute_extra n e d = Some y" for y
  proof (rule distribute_extra.raw_induct [where P = ?P, OF _ ret])
    fix f n' e' d' y'
    assume IH: "\<And>n'' e'' d'' y''. f n'' e'' d'' = Some y'' \<Longrightarrow> ?P n'' e'' d'' y''"
      and eq: "(if e' = 0 then Some d'
                else let delta = calc_delta e' n';
                         (extra', data') = distribute_pass delta e' d'
                     in f n' extra' data') = Some y'"
    show "?P n' e' d' y'"
    proof
      assume same: "n' = n \<and> e' = e \<and> d' = d"
      with eq ne stay have "f n e d = Some y'" by simp
      from IH [OF this] show False by simp
    qed
  qed
  then show ?thesis by (cases "distribute_extra n e d") auto
qed

section \<open>The sizing formula\<close>

lemmas double_defs = attributed_load_def double_mul_def double_div_def double_of_u64_def
  round_double_def scale2_def nearest_even_def bitlen.simps double_trunc_def
  int64_of_double_def double_nearest_def






lemma attributed_load_zero: "attributed_load cache_size 0 old = (0, 0)"
  by (simp add: attributed_load_def double_mul_def double_of_u64_def round_double_def)

lemma calc_new_size_no_load:
  assumes "bytes_loaded r = 0" and "uint (old_size r) < 2 ^ 63"
  shows "calc_new_size cache_size 0 r = old_size r"
proof -
  have "sint (old_size r) = uint (old_size r)"
    using assms(2) by (rule sint_eq_uint_small)
  then have "\<not> old_size r <s 0" by (simp add: word_sless_alt)
  then show ?thesis
    using assms(1)
    by (simp add: calc_new_size_def attributed_load_zero int64_of_double_def double_trunc_def)
qed

lemma calc_new_sizes_no_load:
  assumes "\<forall>r\<in>set (concat d). bytes_loaded r = 0 \<and> uint (old_size r) < 2 ^ 63"
  shows "calc_new_sizes cache_size 0 d = keep_old_sizes d"
  using assms
  by (auto simp: calc_new_sizes_def keep_old_sizes_def calc_record_def calc_new_size_no_load)

lemma sum_bytes_loaded_zero:
  assumes "\<forall>r\<in>set (concat d). bytes_loaded r = 0"
  shows "sum_bytes_loaded d = 0"
proof -
  have "sum_list (map bytes_loaded xs) = 0" if "\<forall>r\<in>set xs. bytes_loaded r = 0" for xs
    using that by (induction xs) simp_all
  from this [OF assms] show ?thesis by (simp only: sum_bytes_loaded_def)
qed

lemma word_of_int_sum_uint:
  "word_of_int (\<Sum>r\<leftarrow>xs. uint (f r)) = (sum_list (map f xs) :: u64)"
  by (induction xs) simp_all

lemma sum_new_sizes_keep_old:
  "sum_new_sizes (keep_old_sizes d) = word_of_int (\<Sum>r\<leftarrow>concat d. uint (old_size r))"
proof -
  have "map new_size (concat (keep_old_sizes d)) = map old_size (concat d)"
    by (simp add: keep_old_sizes_def map_concat comp_def)
  then show ?thesis
    by (simp add: sum_new_sizes_def word_of_int_sum_uint)
qed

section \<open>Applying the sizes on a thread\<close>

lemma apply_sizes_untouched:
  assumes "p \<notin> evs"
  shows "fst (apply_sizes evs sizes heap usage) p = heap p"
  using assms
  by (induction sizes arbitrary: heap usage) (auto simp: Let_def)

lemma apply_sizes_other:
  assumes "p \<notin> evicter ` set sizes"
  shows "fst (apply_sizes evs sizes heap usage) p = heap p"
  using assms
  by (induction sizes arbitrary: heap usage) (auto simp: Let_def)

lemma apply_sizes_limit:
  assumes "distinct (map evicter sizes)" and "r \<in> set sizes" and "evicter r \<in> evs"
  shows "fst (apply_sizes evs sizes heap usage) (evicter r)
       = update_memory_limit (new_size r) (heap (evicter r))"
  using assms
proof (induction sizes arbitrary: heap usage)
  case Nil
  then show ?case by simp
next
  case (Cons it rest)
  show ?case
  proof (cases "r = it")
    case True
    have "evicter it \<notin> evicter ` set rest" using Cons.prems(1) by simp
    then show ?thesis
      using True Cons.prems(3) by (simp add: Let_def apply_sizes_other)
  next
    case False
    then have in_rest: "r \<in> set rest" using Cons.prems(2) by simp
    then have "evicter r \<in> evicter ` set rest" by (rule imageI)
    moreover have "evicter it \<notin> evicter ` set rest" using Cons.prems(1) by simp
    ultimately have ne: "evicter r \<noteq> evicter it" by metis
    have d: "distinct (map evicter rest)" using Cons.prems(1) by simp
    show ?thesis
      using Cons.IH [OF d in_rest Cons.prems(3)] ne by (simp add: Let_def)
  qed
qed

lemma apply_sizes_usage:
  "snd (apply_sizes evs sizes heap usage)
     = usage + sum_list (map (\<lambda>r. in_memory_size (heap (evicter r)))
                           (filter (\<lambda>r. evicter r \<in> evs) sizes))"
proof (induction sizes arbitrary: heap usage)
  case Nil
  then show ?case by simp
next
  case (Cons it rest)
  show ?case
  proof (cases "evicter it \<in> evs")
    case True
    let ?heap' = "heap(evicter it := update_memory_limit (new_size it) (heap (evicter it)))"
    have same: "in_memory_size (?heap' p) = in_memory_size (heap p)" for p
      by (simp add: in_memory_size_def update_memory_limit_def)
    have step: "apply_sizes evs (it # rest) heap usage
        = apply_sizes evs rest ?heap' (usage + in_memory_size (?heap' (evicter it)))"
      using True by (simp only: apply_sizes.simps if_True Let_def)
    have "snd (apply_sizes evs (it # rest) heap usage)
        = usage + in_memory_size (?heap' (evicter it))
          + sum_list (map (\<lambda>r. in_memory_size (?heap' (evicter r)))
                        (filter (\<lambda>r. evicter r \<in> evs) rest))"
      by (simp only: step Cons.IH)
    also have "\<dots> = usage + in_memory_size (heap (evicter it))
          + sum_list (map (\<lambda>r. in_memory_size (heap (evicter r)))
                        (filter (\<lambda>r. evicter r \<in> evs) rest))"
      by (simp only: same)
    finally show ?thesis
      using True by (simp add: add.assoc)
  next
    case False
    then show ?thesis using Cons.IH by simp
  qed
qed

lemma apply_rebalance_to_thread_info:
  assumes "apply_rebalance_to_thread index new_sizes ciu s = Some (s', ciu')"
  shows "index < length (thread_info s)"
    and "thread_info s' = (thread_info s)[index := (thread_info s ! index)\<lparr>access_count := 0\<rparr>]"
  using assms
  by (auto simp: apply_rebalance_to_thread_def Let_def case_prod_unfold split: if_splits)

lemma pmap_apply_access_count:
  assumes "pmap_apply idxs new_sizes ciu s = Some (s', ciu')"
    and "j < length (thread_info s)"
  shows "access_count (thread_info s' ! j)
       = (if j \<in> set idxs then 0 else access_count (thread_info s ! j))"
  using assms
proof (induction idxs arbitrary: ciu s)
  case Nil
  then show ?case by simp
next
  case (Cons i idxs)
  from Cons.prems(1) obtain s1 ciu1
    where a: "apply_rebalance_to_thread i new_sizes ciu s = Some (s1, ciu1)"
      and r: "pmap_apply idxs new_sizes ciu1 s1 = Some (s', ciu')"
    by (auto split: option.splits)
  note ti = apply_rebalance_to_thread_info [OF a]
  have len: "j < length (thread_info s1)" using ti(2) Cons.prems(2) by simp
  have one: "access_count (thread_info s1 ! j)
      = (if j = i then 0 else access_count (thread_info s ! j))"
    using ti Cons.prems(2) by (simp add: nth_list_update)
  show ?case
    using Cons.IH [OF r len] one by auto
qed

section \<open>What the steps of the system leave alone\<close>

lemma on_ring_frame: "frame_of (on_ring now s) = frame_of s"
  by (simp add: on_ring_def frame_of_def)

lemma env_step_frame:
  assumes "env_step ev s = Some s'"
  shows "frame_of s' = frame_of s"
proof (cases ev)
  case (Add_evicter i p)
  with assms show ?thesis
    by (auto simp: add_evicter_def frame_of_def split: if_splits)
next
  case (Remove_evicter i p)
  with assms show ?thesis
    by (auto simp: remove_evicter_def frame_of_def split: if_splits)
next
  case (Notify_access i)
  with assms show ?thesis
    by (auto simp: notify_access_def frame_of_def split: if_splits)
next
  case (Ring now)
  with assms show ?thesis
    using on_ring_frame [of now s] by auto
next
  case (Evicter_activity p state)
  with assms show ?thesis
    by (auto simp: frame_of_def)
qed

lemma env_steps_frame:
  "env_steps evs s = Some s' \<Longrightarrow> frame_of s' = frame_of s"
proof (induction evs arbitrary: s)
  case Nil
  then show ?case by simp
next
  case (Cons ev evs)
  then show ?case
    by (auto split: option.splits dest: env_step_frame)
qed

lemma apply_rebalance_to_thread_frame:
  assumes "apply_rebalance_to_thread index new_sizes ciu s = Some (s', ciu')"
  shows "frame_of s' = frame_of s"
  using assms
  by (auto simp: apply_rebalance_to_thread_def frame_of_def Let_def case_prod_unfold
           split: if_splits)

lemma pmap_apply_frame:
  "pmap_apply idxs new_sizes ciu s = Some (s', ciu') \<Longrightarrow> frame_of s' = frame_of s"
proof (induction idxs arbitrary: ciu s)
  case Nil
  then show ?case by simp
next
  case (Cons i idxs)
  from Cons.prems obtain s1 ciu1
    where a: "apply_rebalance_to_thread i new_sizes ciu s = Some (s1, ciu1)"
      and r: "pmap_apply idxs new_sizes ciu1 s1 = Some (s', ciu')"
    by (auto split: option.splits)
  show ?case
    using Cons.IH [OF r] apply_rebalance_to_thread_frame [OF a] by simp
qed

lemma dispatch_frame:
  "dispatch sized s = Some (s', ciu) \<Longrightarrow> frame_of s' = frame_of s"
  unfolding dispatch_def by (rule pmap_apply_frame)

lemma update_read_ahead_latched:
  "\<not> read_ahead_ok s \<Longrightarrow> update_read_ahead ciu s = s"
  by (simp add: update_read_ahead_def)

lemma update_read_ahead_value:
  "read_ahead_ok s \<Longrightarrow>
     read_ahead_ok (update_read_ahead ciu s) = (foldl (+) 0 ciu * 10 < total_cache_size s * 9)"
  by (simp add: update_read_ahead_def Let_def read_ahead_ratio_denominator_def
      read_ahead_ratio_numerator_def)

lemma update_read_ahead_thread_info:
  "thread_info (update_read_ahead ciu s) = thread_info s"
  by (simp add: update_read_ahead_def Let_def)

lemma length_snapshot: "length (snapshot s) = length (thread_info s)"
  by (simp add: snapshot_def)

section \<open>The two paths of a pass\<close>

lemma callback_early_exit:
  assumes "total_cache_size s = 0 \<or> count_evicters s = 0"
  shows "coro_pool_callback interleaved s = Some s"
  using assms by (auto simp: coro_pool_callback_def Let_def)

lemma callback_full:
  assumes "coro_pool_callback interleaved s = Some s'"
    and "0 < total_cache_size s" and "0 < count_evicters s"
  shows "\<exists>sized s1 s2 cache_in_use.
     rebalance_sizes (total_cache_size s) (count_evicters s) (sum_bytes_loaded (snapshot s))
       (snapshot s) = Some sized
     \<and> env_steps interleaved s = Some s1
     \<and> dispatch sized s1 = Some (s2, cache_in_use)
     \<and> s' = update_read_ahead cache_in_use s2"
  using assms
  by (auto simp: coro_pool_callback_def Let_def split: option.splits)

lemma callback_latched:
  assumes "coro_pool_callback interleaved s = Some s'" and "\<not> read_ahead_ok s"
  shows "\<not> read_ahead_ok s'"
proof (cases "0 < total_cache_size s \<and> 0 < count_evicters s")
  case True
  from callback_full [OF assms(1) conjunct1 [OF True] conjunct2 [OF True]]
  obtain sized s1 s2 ciu where st: "env_steps interleaved s = Some s1"
    "dispatch sized s1 = Some (s2, ciu)" "s' = update_read_ahead ciu s2"
    by blast
  have "frame_of s2 = frame_of s"
    using env_steps_frame [OF st(1)] dispatch_frame [OF st(2)] by simp
  then have "\<not> read_ahead_ok s2" using assms(2) by (simp add: frame_of_def)
  then show ?thesis using st(3) by (simp add: update_read_ahead_latched)
next
  case False
  then have "total_cache_size s = 0 \<or> count_evicters s = 0"
    by (auto simp: word_greater_zero_iff)
  from callback_early_exit [OF this, of interleaved] assms show ?thesis by simp
qed

lemma step_latched:
  assumes "step ev s = Some s'" and "\<not> read_ahead_ok s"
  shows "\<not> read_ahead_ok s'"
proof (cases ev)
  case (Env e)
  with assms(1) have "frame_of s' = frame_of s" by (auto dest: env_step_frame)
  then show ?thesis using assms(2) by (simp add: frame_of_def)
next
  case (Rebalance evs)
  with assms show ?thesis by (auto dest: callback_latched)
qed

lemma run_latched:
  "run evs s = Some s' \<Longrightarrow> \<not> read_ahead_ok s \<Longrightarrow> \<not> read_ahead_ok s'"
proof (induction evs arbitrary: s)
  case Nil
  then show ?case by simp
next
  case (Cons ev evs)
  from Cons.prems(1) obtain s1 where a: "step ev s = Some s1" and r: "run evs s1 = Some s'"
    by (auto split: option.splits)
  show ?case
    using Cons.IH [OF r] step_latched [OF a Cons.prems(2)] by simp
qed

lemma callback_resets:
  assumes "coro_pool_callback interleaved s = Some s'"
    and "0 < total_cache_size s" and "0 < count_evicters s"
  shows "\<forall>info\<in>set (thread_info s'). access_count info = 0"
proof -
  from callback_full [OF assms]
  obtain sized s1 s2 ciu where st:
    "rebalance_sizes (total_cache_size s) (count_evicters s) (sum_bytes_loaded (snapshot s))
       (snapshot s) = Some sized"
    "env_steps interleaved s = Some s1"
    "dispatch sized s1 = Some (s2, ciu)" "s' = update_read_ahead ciu s2"
    by blast
  have l1: "length sized = length (thread_info s)"
    using rebalance_sizes_length [OF st(1)] by (simp add: length_snapshot)
  have l2: "length (thread_info s1) = length (thread_info s)"
    using env_steps_frame [OF st(2)] by (simp add: frame_of_def)
  have l3: "length (thread_info s2) = length (thread_info s1)"
    using dispatch_frame [OF st(3)] by (simp add: frame_of_def)
  have p: "pmap_apply [0..<length sized] sized (replicate (length (thread_info s1)) 0) s1
      = Some (s2, ciu)"
    using st(3) by (simp add: dispatch_def)
  have z: "access_count (thread_info s2 ! j) = 0" if "j < length (thread_info s2)" for j
    using pmap_apply_access_count [OF p, of j] that l1 l2 l3 by simp
  have "\<forall>info\<in>set (thread_info s2). access_count info = 0"
    using z by (auto simp: in_set_conv_nth)
  then show ?thesis using st(4) by (simp add: update_read_ahead_thread_info)
qed

lemma timeout_micros: "rebalance_timeout_ms * 1000 = 500000"
  by (simp add: rebalance_timeout_ms_def)

section \<open>The example states\<close>

lemma example_snapshot:
  "snapshot example_system
     = [[\<lparr>evicter = 0, new_size = 0, old_size = 1000, bytes_loaded = 0\<rparr>]]"
  by (simp add: snapshot_def snapshot_thread_def cache_data_def example_system_def
      example_heap_def get_memory_limit_def get_bytes_loaded_def)

lemma example_count: "count_evicters example_system = 1"
  by (simp add: count_evicters_def example_system_def)

lemma example_sizes:
  "rebalance_sizes 1000 n 0 [[\<lparr>evicter = 0, new_size = 0, old_size = 1000, bytes_loaded = 0\<rparr>]]
     = Some [[\<lparr>evicter = 0, new_size = 1000, old_size = 1000, bytes_loaded = 0\<rparr>]]"
  by (simp add: rebalance_sizes_def calc_new_sizes_def calc_record_def calc_new_size_def
      attributed_load_def double_mul_def double_of_u64_def round_double_def
      int64_of_double_def double_trunc_def word_sless_alt sum_new_sizes_def
      distribute_extra.simps)

lemma example_fields:
  "total_cache_size example_system = 1000"
  "read_ahead_ok example_system"
  "thread_info example_system = [\<lparr>access_count = 5, evicters = {0}\<rparr>]"
  "evicter_heap example_system = example_heap"
  by (simp_all add: example_system_def)

lemma example_dispatch:
  "dispatch [[\<lparr>evicter = 0, new_size = 1000, old_size = 1000, bytes_loaded = 0\<rparr>]] example_system
     = Some (example_system\<lparr>thread_info := [\<lparr>access_count = 0, evicters = {0}\<rparr>],
               evicter_heap := example_heap(0 := example_heap 0\<lparr>memory_limit := 1000\<rparr>)\<rparr>, [920])"
  by (simp add: dispatch_def apply_rebalance_to_thread_def example_fields Let_def
      update_memory_limit_def in_memory_size_def)
     (simp add: example_heap_def)

lemma example_pass:
  "coro_pool_callback [] example_system
     = Some example_after"
  by (simp add: coro_pool_callback_def example_snapshot example_count sum_bytes_loaded_def
      example_sizes example_fields example_dispatch update_read_ahead_def
      read_ahead_ratio_denominator_def read_ahead_ratio_numerator_def Let_def
      example_after_def)

section \<open>Conservation and termination\<close>

text \<open>In a pass, \<open>total_evicters\<close> is the number of the records of the snapshot.\<close>

lemma count_evicters_snapshot: "count_evicters s = length (concat (snapshot s))"
  by (simp add: count_evicters_def snapshot_def snapshot_thread_def length_concat comp_def)


text \<open>
  Claim C1. In a rebalance pass with a positive cache size and at least one snapshotted
  evicter, the sizing block returns, the new sizes of the records then add up to the
  cache size exactly, and no new size is negative. This holds when the cache size, the
  number of records and the sum of the sizes that the formula computes are all below
  \<open>2 ^ 63\<close>, the range of the \<^verbatim>\<open>int64_t\<close> in which the loop counts.
\<close>

theorem rebalance_conserves_total:
  assumes "0 < cache_size" and "uint cache_size < 2 ^ 63"
    and "total_evicters = length (concat per_thread_data)"
    and "1 \<le> total_evicters" and "total_evicters < 2 ^ 63"
    and "sizes_total (calc_new_sizes cache_size total_bytes_loaded per_thread_data) < 2 ^ 63"
  shows "\<exists>result. rebalance_sizes cache_size total_evicters total_bytes_loaded per_thread_data
            = Some result
          \<and> sizes_total result = uint cache_size
          \<and> (\<forall>r\<in>set (concat result). 0 \<le> sint (new_size r))"
proof -
  let ?sized = "calc_new_sizes cache_size total_bytes_loaded per_thread_data"
  have len: "length (concat ?sized) = length (concat per_thread_data)"
    by (simp add: calc_new_sizes_def length_concat comp_def)
  have "dist_inv (uint cache_size) total_evicters (cache_size - sum_new_sizes ?sized) ?sized"
    using assms(2,6) _ assms(4,5) by (rule dist_inv_initial) (simp add: len assms(3))
  from distribute_extra_total [OF this]
  obtain result where r: "distribute_extra total_evicters (cache_size - sum_new_sizes ?sized) ?sized
      = Some result" "sizes_total result = uint cache_size"
    by blast
  have "rebalance_sizes cache_size total_evicters total_bytes_loaded per_thread_data = Some result"
    using r(1) by (simp add: rebalance_sizes_def)
  moreover have "\<forall>r\<in>set (concat result). 0 \<le> sint (new_size r)"
    using new_sizes_in_range(1) [OF r(2) assms(2)] by blast
  ultimately show ?thesis using r(2) by blast
qed

lemma uneven_calc: "calc_new_sizes 1000 7 uneven_snapshot = uneven_sized"
  by (simp add: calc_new_sizes_def calc_record_def calc_new_size_def uneven_snapshot_def
      uneven_sized_def double_defs Let_def word_sless_alt)

lemma uneven_total: "sizes_total uneven_sized = 1011"
  by (simp add: uneven_sized_def sizes_total_def thread_total_def size_of_def)

theorem rebalance_conserves_total_witness:
  "\<exists>result. rebalance_sizes 1000 3 7 uneven_snapshot = Some result
      \<and> sizes_total result = uint (1000 :: u64)
      \<and> (\<forall>r\<in>set (concat result). 0 \<le> sint (new_size r))"
  by (rule rebalance_conserves_total)
     (simp_all add: uneven_calc uneven_total, simp add: uneven_snapshot_def)

text \<open>
  Three evicters with a limit of \<open>2 ^ 63 - 1\<close> bytes each, no load, and a cache of
  \<open>2 ^ 63 - 3\<close> bytes: the 64-bit sum of the new sizes wraps around to the cache
  size, the loop has nothing to do, and the new sizes add up to \<open>2 ^ 64\<close> more than
  the cache size.
\<close>

theorem rebalance_sum_wraps:
  "rebalance_sizes (2 ^ 63 - 3) 3 0
     [[\<lparr>evicter = 0, new_size = 0, old_size = 2 ^ 63 - 1, bytes_loaded = 0\<rparr>,
       \<lparr>evicter = 1, new_size = 0, old_size = 2 ^ 63 - 1, bytes_loaded = 0\<rparr>,
       \<lparr>evicter = 2, new_size = 0, old_size = 2 ^ 63 - 1, bytes_loaded = 0\<rparr>]]
   = Some
     [[\<lparr>evicter = 0, new_size = 2 ^ 63 - 1, old_size = 2 ^ 63 - 1, bytes_loaded = 0\<rparr>,
       \<lparr>evicter = 1, new_size = 2 ^ 63 - 1, old_size = 2 ^ 63 - 1, bytes_loaded = 0\<rparr>,
       \<lparr>evicter = 2, new_size = 2 ^ 63 - 1, old_size = 2 ^ 63 - 1, bytes_loaded = 0\<rparr>]]
   \<and> sizes_total
     [[\<lparr>evicter = 0, new_size = 2 ^ 63 - 1, old_size = 2 ^ 63 - 1, bytes_loaded = 0\<rparr>,
       \<lparr>evicter = 1, new_size = 2 ^ 63 - 1, old_size = 2 ^ 63 - 1, bytes_loaded = 0\<rparr>,
       \<lparr>evicter = 2, new_size = 2 ^ 63 - 1, old_size = 2 ^ 63 - 1, bytes_loaded = 0\<rparr>]]
     \<noteq> uint (2 ^ 63 - 3 :: u64)"
  by (simp add: rebalance_sizes_def calc_new_sizes_def calc_record_def calc_new_size_no_load
      sum_new_sizes_def distribute_extra.simps sizes_total_def thread_total_def size_of_def)

text \<open>
  Claim C2. The distribution loop returns for every list of records, cache size and
  number of evicters, and every walk over the records that starts with \<open>extra_bytes\<close>
  not zero brings \<open>extra_bytes\<close> strictly closer to zero. This holds when
  \<open>total_evicters\<close> is the number of records, as the snapshot makes it, and when
  this number, the cache size and the sum of the new sizes are below \<open>2 ^ 63\<close>.
\<close>

theorem distribute_extra_returns:
  assumes "0 < cache_size" and "uint cache_size < 2 ^ 63"
    and "total_evicters = length (concat per_thread_data)"
    and "1 \<le> total_evicters" and "total_evicters < 2 ^ 63"
    and "sizes_total per_thread_data < 2 ^ 63"
    and "extra_bytes = cache_size - sum_new_sizes per_thread_data"
  shows "(\<exists>result. distribute_extra total_evicters extra_bytes per_thread_data = Some result)
       \<and> (extra_bytes \<noteq> 0 \<longrightarrow>
            \<bar>sint (fst (distribute_pass (calc_delta extra_bytes total_evicters)
                             extra_bytes per_thread_data))\<bar>
              < \<bar>sint extra_bytes\<bar>)"
proof -
  have inv: "dist_inv (uint cache_size) total_evicters extra_bytes per_thread_data"
    unfolding assms(7) using assms(2,6,3,4,5) by (rule dist_inv_initial)
  have "\<exists>result. distribute_extra total_evicters extra_bytes per_thread_data = Some result"
    using distribute_extra_total [OF inv] by blast
  moreover have "\<bar>sint (fst (distribute_pass (calc_delta extra_bytes total_evicters)
                             extra_bytes per_thread_data))\<bar> < \<bar>sint extra_bytes\<bar>"
    if "extra_bytes \<noteq> 0"
  proof -
    obtain e' d' where p: "distribute_pass (calc_delta extra_bytes total_evicters)
        extra_bytes per_thread_data = (e', d')"
      by (cases "distribute_pass (calc_delta extra_bytes total_evicters)
        extra_bytes per_thread_data")
    from distribute_pass_inv(2) [OF inv that p] show ?thesis by (simp add: p)
  qed
  ultimately show ?thesis by blast
qed

lemma uneven_extra: "1000 - sum_new_sizes uneven_sized = - 11"
  by (simp add: sum_new_sizes_def uneven_sized_def)

theorem distribute_extra_returns_witness:
  "(\<exists>result. distribute_extra 3 (- 11) uneven_sized = Some result)
   \<and> \<bar>sint (fst (distribute_pass (calc_delta (- 11) 3) (- 11) uneven_sized))\<bar>
        < \<bar>sint (- 11 :: u64)\<bar>"
  using distribute_extra_returns [of 1000 3 uneven_sized "- 11"]
  by (simp add: uneven_total uneven_extra) (simp add: uneven_sized_def)

text \<open>
  A cache size of \<open>2 ^ 63\<close> bytes and one evicter of size zero: \<open>extra_bytes\<close> is
  \<open>- 2 ^ 63\<close> as an \<^verbatim>\<open>int64_t\<close>, the evicter has nothing to give back, and every
  walk leaves \<open>extra_bytes\<close> as it was.
\<close>

theorem distribute_extra_never_returns:
  "distribute_extra 1
     (2 ^ 63 - sum_new_sizes [[\<lparr>evicter = 0, new_size = 0, old_size = 0, bytes_loaded = 0\<rparr>]])
     [[\<lparr>evicter = 0, new_size = 0, old_size = 0, bytes_loaded = 0\<rparr>]] = None"
proof -
  have "distribute_extra 1 (2 ^ 63)
     [[\<lparr>evicter = 0, new_size = 0, old_size = 0, bytes_loaded = 0\<rparr>]] = None"
    by (rule distribute_extra_stuck) (simp_all add: calc_delta_def int64_div_def word_sle_eq)
  then show ?thesis by (simp add: sum_new_sizes_def)
qed

section \<open>The sizing formula and the scenario\<close>




section \<open>The timer tick\<close>

lemma foldl_access_count:
  "foldl (\<lambda>acc info. acc + access_count info) a infos
     = a + sum_list (map access_count infos)"
  by (induction infos arbitrary: a) (simp_all add: add.assoc)

lemma uint_sum_list_mod:
  "uint (sum_list ws :: u64) = (\<Sum>w\<leftarrow>ws. uint w) mod 2 ^ 64"
proof (induction ws)
  case Nil
  then show ?case by simp
next
  case (Cons w ws)
  have "uint (w + sum_list ws) = (uint w + uint (sum_list ws)) mod 2 ^ 64"
    by (simp add: uint_word_ariths)
  also have "\<dots> = (uint w + (\<Sum>w\<leftarrow>ws. uint w) mod 2 ^ 64) mod 2 ^ 64"
    using Cons.IH by simp
  also have "\<dots> = (uint w + (\<Sum>w\<leftarrow>ws. uint w)) mod 2 ^ 64"
    by (simp add: mod_add_right_eq)
  finally show ?case by simp
qed

lemma sum_uint_nonneg: "0 \<le> (\<Sum>w\<leftarrow>ws. uint (w :: u64))"
  by (induction ws) simp_all

lemma access_sum_nonneg: "0 \<le> access_sum infos"
  by (induction infos) (simp_all add: access_sum_def)

lemma uint_total_accesses:
  assumes "access_sum infos < 2 ^ 64"
  shows "uint (total_accesses infos) = access_sum infos"
proof -
  have "uint (total_accesses infos) = (\<Sum>w\<leftarrow>map access_count infos. uint w) mod 2 ^ 64"
    by (simp add: total_accesses_def foldl_access_count uint_sum_list_mod)
  also have "(\<Sum>w\<leftarrow>map access_count infos. uint w) = access_sum infos"
    by (simp add: access_sum_def comp_def)
  finally show ?thesis
    using assms access_sum_nonneg [of infos] by simp
qed

lemma deadline_no_wrap:
  fixes last :: u64
  assumes "uint last + 500000 < 2 ^ 64"
  shows "uint (last + 500000) = uint last + 500000"
proof -
  have "uint (last + 500000) = (uint last + 500000) mod 2 ^ 64"
    by (simp add: uint_word_ariths)
  then show ?thesis using assms by simp
qed

lemma on_ring_forced:
  assumes "500000 \<le> uint now - uint (last_rebalance_time s)"
  shows "on_ring now s = s\<lparr>last_rebalance_time := now, pool_queue := pool_queue s + 1\<rparr>"
proof -
  have "uint now < 2 ^ 64" using uint_lt2p [of now] by simp
  then have "uint (last_rebalance_time s) + 500000 < 2 ^ 64" using assms by linarith
  then have "uint (last_rebalance_time s + 500000) = uint (last_rebalance_time s) + 500000"
    by (rule deadline_no_wrap)
  then have "\<not> now < last_rebalance_time s + 500000"
    using assms by (simp add: word_less_alt)
  then show ?thesis by (simp add: on_ring_def timeout_micros)
qed

lemma on_ring_in_range:
  assumes "uint (last_rebalance_time s) + 500000 < 2 ^ 64"
    and "access_sum (thread_info s) < 2 ^ 64"
  shows "on_ring now s =
     (if uint now - uint (last_rebalance_time s) < 500000 \<and> access_sum (thread_info s) < 100
      then s
      else s\<lparr>last_rebalance_time := now, pool_queue := pool_queue s + 1\<rparr>)"
proof -
  have d: "uint (last_rebalance_time s + 500000) = uint (last_rebalance_time s) + 500000"
    using assms(1) by (rule deadline_no_wrap)
  have t: "(now < last_rebalance_time s + 500000)
      = (uint now - uint (last_rebalance_time s) < 500000)"
    by (simp add: word_less_alt d) linarith
  have a: "(total_accesses (thread_info s) < 100) = (access_sum (thread_info s) < 100)"
    using uint_total_accesses [OF assms(2)] by (simp add: word_less_alt)
  show ?thesis
    by (simp add: on_ring_def timeout_micros rebalance_access_count_threshold_def t a)
qed

text \<open>
  Claim C4. A tick for which 500 ms or more have passed since \<open>last_rebalance_time\<close>
  sets \<open>last_rebalance_time\<close> to the current time and hands exactly one request to
  the queue, whatever the access counts are. For the other ticks the code compares the
  current time with \<open>last_rebalance_time + 500000\<close> and adds the access counts up, both
  in \<^verbatim>\<open>uint64_t\<close>: as long as neither sum passes \<open>2 ^ 64\<close>, a tick for which less
  than 500 ms have passed and the access counts add up to less than 100 changes
  nothing, and every other tick sets the time and hands over exactly one request.
  Elapsed time is the difference of the two times as numbers of microseconds.
\<close>

theorem on_ring_decides:
  "(500000 \<le> uint now - uint (last_rebalance_time s) \<longrightarrow>
      on_ring now s = s\<lparr>last_rebalance_time := now, pool_queue := pool_queue s + 1\<rparr>)
   \<and> (uint (last_rebalance_time s) + 500000 < 2 ^ 64 \<longrightarrow>
      access_sum (thread_info s) < 2 ^ 64 \<longrightarrow>
      on_ring now s =
        (if uint now - uint (last_rebalance_time s) < 500000
            \<and> access_sum (thread_info s) < 100
         then s
         else s\<lparr>last_rebalance_time := now, pool_queue := pool_queue s + 1\<rparr>))"
  using on_ring_forced [of now s] on_ring_in_range [of s now] by blast

theorem on_ring_decides_witness:
  "on_ring 499999 example_system = example_system
   \<and> on_ring 500000 example_system
       = example_system\<lparr>last_rebalance_time := 500000, pool_queue := 1\<rparr>
   \<and> on_ring 20000 (example_system\<lparr>thread_info := [\<lparr>access_count = 100, evicters = {0}\<rparr>]\<rparr>)
       = example_system\<lparr>thread_info := [\<lparr>access_count = 100, evicters = {0}\<rparr>],
           last_rebalance_time := 20000, pool_queue := 1\<rparr>"
  using on_ring_decides [of 499999 example_system] on_ring_decides [of 500000 example_system]
    on_ring_decides [of 20000 "example_system\<lparr>thread_info := [\<lparr>access_count = 100, evicters = {0}\<rparr>]\<rparr>"]
  by (simp add: example_system_def access_sum_def)

text \<open>
  Two ticks on which the code and the claim part. When the last pass was at time
  \<open>2 ^ 64 - 1\<close>, the sum with the timeout wraps around to 499999: a tick at the same
  time, with five accesses, finds the timeout passed and hands a request over. When two
  threads have counted \<open>2 ^ 63\<close> accesses each, their sum wraps around to zero and a
  tick at time zero does nothing.
\<close>

theorem on_ring_wraps:
  "uint (2 ^ 64 - 1 :: u64) - uint (last_rebalance_time late_system) < 500000
   \<and> access_sum (thread_info late_system) < 100
   \<and> on_ring (2 ^ 64 - 1) late_system = late_system\<lparr>pool_queue := 1\<rparr>
   \<and> late_system\<lparr>pool_queue := 1\<rparr> \<noteq> late_system
   \<and> 100 \<le> access_sum (thread_info crowded_system)
   \<and> on_ring 0 crowded_system = crowded_system
   \<and> crowded_system\<lparr>last_rebalance_time := 0, pool_queue := pool_queue crowded_system + 1\<rparr>
       \<noteq> crowded_system"
proof -
  have "late_system\<lparr>pool_queue := 1\<rparr> \<noteq> late_system"
  proof
    assume "late_system\<lparr>pool_queue := 1\<rparr> = late_system"
    then have "pool_queue (late_system\<lparr>pool_queue := 1\<rparr>) = pool_queue late_system" by simp
    then show False by (simp add: late_system_def example_system_def)
  qed
  moreover have "crowded_system\<lparr>last_rebalance_time := 0,
      pool_queue := pool_queue crowded_system + 1\<rparr> \<noteq> crowded_system"
  proof
    assume "crowded_system\<lparr>last_rebalance_time := 0,
      pool_queue := pool_queue crowded_system + 1\<rparr> = crowded_system"
    then have "pool_queue (crowded_system\<lparr>last_rebalance_time := 0,
      pool_queue := pool_queue crowded_system + 1\<rparr>) = pool_queue crowded_system" by simp
    then show False by simp
  qed
  moreover have "on_ring (2 ^ 64 - 1) late_system = late_system\<lparr>pool_queue := 1\<rparr>"
    by (simp add: on_ring_def timeout_micros late_system_def example_system_def)
  moreover have "on_ring 0 crowded_system = crowded_system"
    by (simp add: on_ring_def timeout_micros crowded_system_def example_system_def
        total_accesses_def rebalance_access_count_threshold_def)
  ultimately show ?thesis
    by (simp add: late_system_def crowded_system_def example_system_def access_sum_def)
qed

section \<open>The read-ahead flag\<close>

lemma one_evicter_pass:
  assumes "total_cache_size s = 1000"
    and "thread_info s = [\<lparr>access_count = a, evicters = {0}\<rparr>]"
    and "memory_limit (evicter_heap s 0) = 1000"
    and "bytes_loaded_counter (evicter_heap s 0) = 0"
  shows "\<exists>s'. coro_pool_callback [] s = Some s'"
proof -
  have snap: "snapshot s = [[\<lparr>evicter = 0, new_size = 0, old_size = 1000, bytes_loaded = 0\<rparr>]]"
    using assms
    by (simp add: snapshot_def snapshot_thread_def cache_data_def get_memory_limit_def
        get_bytes_loaded_def)
  have cnt: "count_evicters s = 1" using assms(2) by (simp add: count_evicters_def)
  have "\<exists>r. dispatch [[\<lparr>evicter = 0, new_size = 1000, old_size = 1000, bytes_loaded = 0\<rparr>]] s
      = Some r"
    using assms(2) by (simp add: dispatch_def apply_rebalance_to_thread_def Let_def
        case_prod_unfold)
  then obtain s2 ciu
    where "dispatch [[\<lparr>evicter = 0, new_size = 1000, old_size = 1000, bytes_loaded = 0\<rparr>]] s
      = Some (s2, ciu)"
    by (cases "dispatch [[\<lparr>evicter = 0, new_size = 1000, old_size = 1000, bytes_loaded = 0\<rparr>]] s")
       auto
  then show ?thesis
    using assms(1)
    by (simp add: coro_pool_callback_def snap cnt sum_bytes_loaded_def example_sizes)
qed

text \<open>
  Claim C5. \<open>read_ahead_ok\<close> is true in a new balancer, and once it is false it is
  false after every run of the system: rebalance passes, ticks, registrations, accesses
  and any change of the load and the footprint of the evicters.
\<close>

theorem read_ahead_ok_latch:
  "read_ahead_ok (new_balancer cache_size num_threads heap)
   \<and> (\<not> read_ahead_ok s \<longrightarrow> run evs s = Some s' \<longrightarrow> \<not> read_ahead_ok s')"
  using run_latched [of evs s s'] by (simp add: new_balancer_def)

theorem read_ahead_ok_latch_witness:
  "read_ahead_ok (new_balancer 1000 1 example_heap)
   \<and> \<not> read_ahead_ok example_after
   \<and> (\<exists>s'. run [Env (Evicter_activity 0
                     \<lparr>memory_limit = 1000, bytes_loaded_counter = 0, in_memory = 10\<rparr>),
                 Rebalance []] example_after = Some s'
          \<and> \<not> read_ahead_ok s')"
proof -
  let ?quiet = "\<lparr>memory_limit = 1000, bytes_loaded_counter = 0, in_memory = 10\<rparr> :: evicter_t"
  let ?s1 = "example_after\<lparr>evicter_heap := (evicter_heap example_after)(0 := ?quiet)\<rparr>"
  have "\<exists>s'. coro_pool_callback [] ?s1 = Some s'"
    by (rule one_evicter_pass [where a = 0])
       (simp_all add: example_after_def example_system_def example_heap_def)
  then obtain s' where "coro_pool_callback [] ?s1 = Some s'" by blast
  then have r: "run [Env (Evicter_activity 0 ?quiet), Rebalance []] example_after = Some s'"
    by simp
  have n: "\<not> read_ahead_ok example_after" by (simp add: example_after_def)
  show ?thesis
    using read_ahead_ok_latch [of 1000 1 example_heap example_after
        "[Env (Evicter_activity 0 ?quiet), Rebalance []]" s'] r n
    by blast
qed

lemma ratio_compare_exact:
  fixes usage total :: u64
  assumes "uint usage * 10 < 2 ^ 64" and "uint total * 9 < 2 ^ 64"
  shows "(usage * 10 < total * 9) = (uint usage * 10 < uint total * 9)"
proof -
  have "uint (usage * 10) = uint usage * 10"
    using assms(1) uint_mult_lem [of usage 10] by simp
  moreover have "uint (total * 9) = uint total * 9"
    using assms(2) uint_mult_lem [of total 9] by simp
  ultimately show ?thesis by (simp add: word_less_alt)
qed

lemma foldl_plus_sum_list: "foldl (+) a ws = a + sum_list (ws :: u64 list)"
  by (induction ws arbitrary: a) (simp_all add: add.assoc)

lemma usage_sum_nonneg: "0 \<le> usage_sum ciu"
  by (simp add: usage_sum_def sum_uint_nonneg)

lemma uint_cache_usage:
  assumes "usage_sum ciu < 2 ^ 64"
  shows "uint (foldl (+) 0 ciu) = usage_sum ciu"
proof -
  have "uint (foldl (+) 0 ciu) = usage_sum ciu mod 2 ^ 64"
    by (simp add: foldl_plus_sum_list uint_sum_list_mod usage_sum_def)
  then show ?thesis using assms usage_sum_nonneg [of ciu] by simp
qed

lemma ratio_compare_sum:
  assumes "usage_sum ciu * 10 < 2 ^ 64" and "uint (cap :: u64) * 9 < 2 ^ 64"
  shows "(foldl (+) 0 ciu * 10 < cap * 9) = (usage_sum ciu * 10 < uint cap * 9)"
proof -
  have "usage_sum ciu < 2 ^ 64" using assms(1) usage_sum_nonneg [of ciu] by linarith
  then have u: "uint (foldl (+) 0 ciu) = usage_sum ciu" by (rule uint_cache_usage)
  show ?thesis
    using ratio_compare_exact [of "foldl (+) 0 ciu" cap] assms by (simp add: u)
qed

text \<open>
  Claim C6. A pass that runs its sizing and dispatch steps and returns, starting with
  \<open>read_ahead_ok\<close> true, ends with \<open>read_ahead_ok\<close> equal to the comparison
  \<open>cache_usage * 10 < total_cache_size * 9\<close> that the code makes in \<^verbatim>\<open>uint64_t\<close>,
  where \<open>cache_usage\<close> is the sum of the per-thread usage accumulators that the
  dispatch has filled. When ten times the sum of the accumulators and nine times the
  cache size are both below \<open>2 ^ 64\<close>, this is the comparison of the two products as
  numbers. A usage of 920 with a cache of 1000 makes the flag false.
\<close>

theorem read_ahead_ok_value:
  assumes "coro_pool_callback interleaved s = Some s'"
    and "0 < total_cache_size s" and "0 < count_evicters s" and "read_ahead_ok s"
  shows "\<exists>sized s1 s2 cache_in_use.
     rebalance_sizes (total_cache_size s) (count_evicters s) (sum_bytes_loaded (snapshot s))
       (snapshot s) = Some sized
     \<and> env_steps interleaved s = Some s1
     \<and> dispatch sized s1 = Some (s2, cache_in_use)
     \<and> read_ahead_ok s' = (foldl (+) 0 cache_in_use * 10 < total_cache_size s * 9)
     \<and> (usage_sum cache_in_use * 10 < 2 ^ 64 \<longrightarrow>
          uint (total_cache_size s) * 9 < 2 ^ 64 \<longrightarrow>
          read_ahead_ok s' = (usage_sum cache_in_use * 10 < uint (total_cache_size s) * 9))
     \<and> (uint (total_cache_size s) = 1000 \<and> usage_sum cache_in_use = 920 \<longrightarrow>
          \<not> read_ahead_ok s')"
proof -
  from callback_full [OF assms(1-3)]
  obtain sized s1 s2 ciu where st:
    "rebalance_sizes (total_cache_size s) (count_evicters s) (sum_bytes_loaded (snapshot s))
       (snapshot s) = Some sized"
    "env_steps interleaved s = Some s1"
    "dispatch sized s1 = Some (s2, ciu)" "s' = update_read_ahead ciu s2"
    by blast
  have "frame_of s2 = frame_of s"
    using env_steps_frame [OF st(2)] dispatch_frame [OF st(3)] by simp
  then have ok: "read_ahead_ok s2" and tot: "total_cache_size s2 = total_cache_size s"
    using assms(4) by (simp_all add: frame_of_def)
  have v: "read_ahead_ok s' = (foldl (+) 0 ciu * 10 < total_cache_size s * 9)"
    using update_read_ahead_value [OF ok, of ciu] st(4) tot by simp
  have x: "read_ahead_ok s' = (usage_sum ciu * 10 < uint (total_cache_size s) * 9)"
    if "usage_sum ciu * 10 < 2 ^ 64" and "uint (total_cache_size s) * 9 < 2 ^ 64"
    using v ratio_compare_sum [OF that] by simp
  have y: "\<not> read_ahead_ok s'"
    if "uint (total_cache_size s) = 1000 \<and> usage_sum ciu = 920"
    using x that by simp
  from st(1-3) v x y show ?thesis by blast
qed

theorem read_ahead_ok_value_witness:
  "\<exists>sized s1 s2 cache_in_use.
     rebalance_sizes (total_cache_size example_system) (count_evicters example_system)
       (sum_bytes_loaded (snapshot example_system)) (snapshot example_system) = Some sized
     \<and> env_steps [] example_system = Some s1
     \<and> dispatch sized s1 = Some (s2, cache_in_use)
     \<and> usage_sum cache_in_use = 920
     \<and> uint (total_cache_size example_system) = 1000
     \<and> read_ahead_ok example_after = ((9200 :: int) < 9000)
     \<and> \<not> read_ahead_ok example_after"
proof -
  from read_ahead_ok_value [OF example_pass]
  obtain sized s1 s2 ciu where st:
    "rebalance_sizes (total_cache_size example_system) (count_evicters example_system)
       (sum_bytes_loaded (snapshot example_system)) (snapshot example_system) = Some sized"
    "env_steps [] example_system = Some s1"
    "dispatch sized s1 = Some (s2, ciu)"
    "usage_sum ciu * 10 < 2 ^ 64 \<longrightarrow> uint (total_cache_size example_system) * 9 < 2 ^ 64
       \<longrightarrow> read_ahead_ok example_after
         = (usage_sum ciu * 10 < uint (total_cache_size example_system) * 9)"
    by (auto simp: example_fields example_count)
  have "sized = [[\<lparr>evicter = 0, new_size = 1000, old_size = 1000, bytes_loaded = 0\<rparr>]]"
    using st(1)
    by (simp add: example_fields example_snapshot sum_bytes_loaded_def example_sizes)
  moreover have "s1 = example_system" using st(2) by simp
  ultimately have "ciu = [920]" using st(3) by (simp add: example_dispatch)
  then have u: "usage_sum ciu = 920" by (simp add: usage_sum_def)
  have t: "uint (total_cache_size example_system) = 1000" by (simp add: example_fields)
  have e: "read_ahead_ok example_after = ((9200 :: int) < 9000)"
    using st(4) u t by simp
  have "\<not> read_ahead_ok example_after" by (simp add: example_after_def)
  then show ?thesis using st(1-3) u t e by blast
qed

lemma wide_fields:
  "total_cache_size wide_system = 2049638230412172402"
  "read_ahead_ok wide_system"
  "thread_info wide_system = [\<lparr>access_count = 0, evicters = {0}\<rparr>]"
  "evicter_heap wide_system = wide_heap"
  by (simp_all add: wide_system_def)

lemma wide_snapshot:
  "snapshot wide_system
     = [[\<lparr>evicter = 0, new_size = 0, old_size = 2049638230412172402, bytes_loaded = 0\<rparr>]]"
  by (simp add: snapshot_def snapshot_thread_def cache_data_def wide_fields wide_heap_def
      get_memory_limit_def get_bytes_loaded_def)

lemma wide_sizes:
  "rebalance_sizes 2049638230412172402 n 0
     [[\<lparr>evicter = 0, new_size = 0, old_size = 2049638230412172402, bytes_loaded = 0\<rparr>]]
     = Some [[\<lparr>evicter = 0, new_size = 2049638230412172402,
               old_size = 2049638230412172402, bytes_loaded = 0\<rparr>]]"
  by (simp add: rebalance_sizes_def calc_new_sizes_def calc_record_def calc_new_size_no_load
      sum_new_sizes_def distribute_extra.simps)

lemma wide_dispatch:
  "dispatch [[\<lparr>evicter = 0, new_size = 2049638230412172402,
               old_size = 2049638230412172402, bytes_loaded = 0\<rparr>]] wide_system
     = Some (wide_system, [1])"
proof -
  have "wide_heap(0 := update_memory_limit 2049638230412172402 (wide_heap 0)) = wide_heap"
    by (rule ext) (simp add: wide_heap_def update_memory_limit_def)
  then show ?thesis
    by (simp add: dispatch_def apply_rebalance_to_thread_def wide_fields Let_def
        in_memory_size_def)
       (simp add: wide_system_def wide_heap_def update_memory_limit_def)
qed

text \<open>
  A cache of 2049638230412172402 bytes, less than \<open>2 ^ 63\<close>, of which one byte is in
  use: nine times the cache size wraps around to 2, the code finds that 10 is not
  less than 2 and the pass clears the flag, although ten bytes are far less than nine
  times the cache size.
\<close>

theorem read_ahead_ok_wraps:
  "read_ahead_ok wide_system
   \<and> coro_pool_callback [] wide_system = Some wide_after
   \<and> dispatch [[\<lparr>evicter = 0, new_size = 2049638230412172402,
                  old_size = 2049638230412172402, bytes_loaded = 0\<rparr>]] wide_system
       = Some (wide_system, [1])
   \<and> usage_sum [1] * 10 < uint (total_cache_size wide_system) * 9
   \<and> \<not> read_ahead_ok wide_after"
proof -
  have "count_evicters wide_system = 1" by (simp add: count_evicters_def wide_fields)
  then have "coro_pool_callback [] wide_system = Some wide_after"
    by (simp add: coro_pool_callback_def wide_snapshot sum_bytes_loaded_def wide_sizes
        wide_fields wide_dispatch update_read_ahead_def read_ahead_ratio_denominator_def
        read_ahead_ratio_numerator_def Let_def wide_after_def)
  then show ?thesis
    by (simp add: wide_dispatch wide_fields usage_sum_def wide_after_def)
qed

section \<open>The pass that has nothing to balance\<close>

text \<open>
  Claim C7. A pass that finds a cache size of zero, or no evicter at all, returns
  without an error and leaves the whole state as it was: the memory limit of every
  evicter, the registered sets, the counters and the flag.
\<close>

theorem early_exit_no_effect:
  assumes "total_cache_size s = 0 \<or> count_evicters s = 0"
  shows "coro_pool_callback interleaved s = Some s"
  using assms by (rule callback_early_exit)

theorem early_exit_no_effect_witness:
  "coro_pool_callback [Remove_evicter 0 0] empty_system = Some empty_system
   \<and> coro_pool_callback []
        (example_system\<lparr>thread_info := [\<lparr>access_count = 5, evicters = {}\<rparr>]\<rparr>)
       = Some (example_system\<lparr>thread_info := [\<lparr>access_count = 5, evicters = {}\<rparr>]\<rparr>)"
  using early_exit_no_effect [of empty_system "[Remove_evicter 0 0]"]
    early_exit_no_effect
      [of "example_system\<lparr>thread_info := [\<lparr>access_count = 5, evicters = {}\<rparr>]\<rparr>" "[]"]
  by (simp add: empty_system_def example_system_def count_evicters_def)

text \<open>
  Claim C10. A pass that takes the early exit resets no access counter and does not
  recompute \<open>read_ahead_ok\<close>; a pass after which an access counter or the flag
  differs has run the sizing, dispatch and flag steps; and such a pass leaves every
  access counter at zero.
\<close>

theorem early_exit_keeps_counters:
  "(total_cache_size s = 0 \<or> count_evicters s = 0 \<longrightarrow>
      (\<exists>s'. coro_pool_callback interleaved s = Some s'
         \<and> map access_count (thread_info s') = map access_count (thread_info s)
         \<and> read_ahead_ok s' = read_ahead_ok s))
   \<and> (coro_pool_callback interleaved s = Some s'' \<longrightarrow>
        (map access_count (thread_info s'') \<noteq> map access_count (thread_info s)
           \<or> read_ahead_ok s'' \<noteq> read_ahead_ok s) \<longrightarrow>
        0 < total_cache_size s \<and> 0 < count_evicters s)
   \<and> (coro_pool_callback interleaved s = Some s'' \<longrightarrow>
        0 < total_cache_size s \<longrightarrow> 0 < count_evicters s \<longrightarrow>
        (\<forall>info\<in>set (thread_info s''). access_count info = 0))"
proof (intro conjI impI)
  assume "total_cache_size s = 0 \<or> count_evicters s = 0"
  then have "coro_pool_callback interleaved s = Some s" by (rule callback_early_exit)
  then show "\<exists>s'. coro_pool_callback interleaved s = Some s'
         \<and> map access_count (thread_info s') = map access_count (thread_info s)
         \<and> read_ahead_ok s' = read_ahead_ok s"
    by simp
next
  assume ret: "coro_pool_callback interleaved s = Some s''"
    and ch: "map access_count (thread_info s'') \<noteq> map access_count (thread_info s)
           \<or> read_ahead_ok s'' \<noteq> read_ahead_ok s"
  have ne: "\<not> (total_cache_size s = 0 \<or> count_evicters s = 0)"
  proof
    assume "total_cache_size s = 0 \<or> count_evicters s = 0"
    then have "coro_pool_callback interleaved s = Some s" by (rule callback_early_exit)
    with ret have "s'' = s" by simp
    with ch show False by simp
  qed
  then show "0 < total_cache_size s" by (simp add: word_greater_zero_iff)
  from ne show "0 < count_evicters s" by simp
next
  assume "coro_pool_callback interleaved s = Some s''"
    and "0 < total_cache_size s" and "0 < count_evicters s"
  then show "\<forall>info\<in>set (thread_info s''). access_count info = 0"
    by (rule callback_resets)
qed

theorem early_exit_keeps_counters_witness:
  "(\<exists>s'. coro_pool_callback [] empty_system = Some s'
       \<and> map access_count (thread_info s') = [5]
       \<and> map access_count (thread_info empty_system) = [5]
       \<and> read_ahead_ok s' = read_ahead_ok empty_system)
   \<and> coro_pool_callback [] example_system = Some example_after
   \<and> map access_count (thread_info example_system) = [5]
   \<and> map access_count (thread_info example_after) = [0]
   \<and> 0 < total_cache_size example_system \<and> 0 < count_evicters example_system"
  using early_exit_keeps_counters [of empty_system "[]" empty_system]
    early_exit_keeps_counters [of example_system "[]" example_after]
  by (simp add: example_pass example_count example_fields)
     (simp add: empty_system_def example_system_def example_after_def)

section \<open>Applying the sizes on a thread, as a pass does\<close>

text \<open>
  The records that a pass hands to a thread carry different evicters, since they come
  from the set of the thread.
\<close>

lemma snapshot_thread_distinct: "distinct (map evicter (snapshot_thread heap info))"
proof -
  have "map evicter (snapshot_thread heap info) = sorted_list_of_set (evicters info)"
    by (simp add: snapshot_thread_def cache_data_def comp_def)
  then show ?thesis by simp
qed

lemma frame_evicters:
  assumes "map (\<lambda>r. r\<lparr>new_size := (0::u64)\<rparr>) xs = map (\<lambda>r. r\<lparr>new_size := 0\<rparr>) ys"
  shows "map evicter xs = map evicter ys"
proof -
  have "map evicter (map (\<lambda>r. r\<lparr>new_size := (0::u64)\<rparr>) xs)
      = map evicter (map (\<lambda>r. r\<lparr>new_size := 0\<rparr>) ys)"
    using assms by simp
  then show ?thesis by (simp add: comp_def)
qed

lemma pass_records_distinct:
  assumes "rebalance_sizes cache_size n tbl (snapshot s) = Some sized"
    and "index < length sized"
  shows "distinct (map evicter (sized ! index))"
proof -
  let ?F = "map (map (\<lambda>r::cache_data_t. r\<lparr>new_size := 0\<rparr>))"
  let ?calc = "calc_new_sizes cache_size tbl (snapshot s)"
  from assms(1) have "distribute_extra n (cache_size - sum_new_sizes ?calc) ?calc = Some sized"
    by (simp add: rebalance_sizes_def Let_def)
  then have fr: "?F sized = ?F ?calc" by (rule distribute_extra_frame)
  have len: "length sized = length (snapshot s)"
    using assms(1) by (rule rebalance_sizes_length)
  then have i: "index < length (snapshot s)" "index < length ?calc"
    using assms(2) by (simp_all add: calc_new_sizes_def)
  have "?F sized ! index = ?F ?calc ! index" using fr by simp
  then have "map (\<lambda>r. r\<lparr>new_size := (0::u64)\<rparr>) (sized ! index)
      = map (\<lambda>r. r\<lparr>new_size := 0\<rparr>) (?calc ! index)"
    using assms(2) i by simp
  then have "map evicter (sized ! index) = map evicter (?calc ! index)"
    by (rule frame_evicters)
  also have "\<dots> = map evicter (snapshot s ! index)"
    using i by (simp add: calc_new_sizes_def calc_record_def comp_def)
  also have "\<dots> = map evicter (snapshot_thread (evicter_heap s) (thread_info s ! index))"
    using i by (simp add: snapshot_def)
  finally show ?thesis by (simp add: snapshot_thread_distinct)
qed

text \<open>
  Claim C8. The apply step on a thread returns without an error. A record whose evicter
  is no longer in the thread's set is passed over: the evicter is not written and adds
  nothing to the usage of the thread. Every record whose evicter is still registered
  sets that evicter's memory limit to its new size, and the usage of the thread is the
  sum of the footprints of these evicters. The access counter of the thread is zero
  afterwards. The records of a snapshot come from a set, so their evicters differ.
\<close>

theorem apply_rebalance_skips_unregistered:
  assumes "index < length (thread_info s)" and "index < length new_sizes"
    and "index < length cache_in_use"
    and "distinct (map evicter (new_sizes ! index))"
  shows "\<exists>s' cache_in_use'.
     apply_rebalance_to_thread index new_sizes cache_in_use s = Some (s', cache_in_use')
     \<and> (\<forall>r\<in>set (new_sizes ! index).
            evicter r \<notin> evicters (thread_info s ! index) \<longrightarrow>
            evicter_heap s' (evicter r) = evicter_heap s (evicter r))
     \<and> (\<forall>r\<in>set (new_sizes ! index).
            evicter r \<in> evicters (thread_info s ! index) \<longrightarrow>
            get_memory_limit (evicter_heap s' (evicter r)) = new_size r)
     \<and> cache_in_use' ! index =
          sum_list (map (\<lambda>r. in_memory_size (evicter_heap s (evicter r)))
                     (filter (\<lambda>r. evicter r \<in> evicters (thread_info s ! index))
                        (new_sizes ! index)))
     \<and> access_count (thread_info s' ! index) = 0
     \<and> evicters (thread_info s' ! index) = evicters (thread_info s ! index)"
proof -
  let ?evs = "evicters (thread_info s ! index)"
  let ?sizes = "new_sizes ! index"
  let ?res = "apply_sizes ?evs ?sizes (evicter_heap s) 0"
  let ?s' = "s\<lparr>thread_info := (thread_info s)[index := (thread_info s ! index)\<lparr>access_count := 0\<rparr>],
               evicter_heap := fst ?res\<rparr>"
  have run: "apply_rebalance_to_thread index new_sizes cache_in_use s
      = Some (?s', cache_in_use[index := snd ?res])"
    using assms(1-3) by (simp add: apply_rebalance_to_thread_def Let_def case_prod_unfold)
  have a: "\<forall>r\<in>set ?sizes. evicter r \<notin> ?evs \<longrightarrow>
      evicter_heap ?s' (evicter r) = evicter_heap s (evicter r)"
    by (simp add: apply_sizes_untouched)
  have b: "\<forall>r\<in>set ?sizes. evicter r \<in> ?evs \<longrightarrow>
      get_memory_limit (evicter_heap ?s' (evicter r)) = new_size r"
    using assms(4)
    by (simp add: apply_sizes_limit get_memory_limit_def update_memory_limit_def)
  have c: "cache_in_use[index := snd ?res] ! index =
      sum_list (map (\<lambda>r. in_memory_size (evicter_heap s (evicter r)))
                  (filter (\<lambda>r. evicter r \<in> ?evs) ?sizes))"
    using assms(3) by (simp add: apply_sizes_usage)
  have d: "access_count (thread_info ?s' ! index) = 0"
    "evicters (thread_info ?s' ! index) = ?evs"
    using assms(1) by simp_all
  show ?thesis
    using run a b c d by blast
qed

theorem apply_rebalance_skips_unregistered_witness:
  "\<exists>s' cache_in_use'.
     apply_rebalance_to_thread 0
       [[\<lparr>evicter = 0, new_size = 700, old_size = 600, bytes_loaded = 0\<rparr>,
         \<lparr>evicter = 1, new_size = 300, old_size = 400, bytes_loaded = 0\<rparr>]] [0] example_system
       = Some (s', cache_in_use')
     \<and> evicter_heap s' 1 = evicter_heap example_system 1
     \<and> get_memory_limit (evicter_heap s' 0) = 700
     \<and> cache_in_use' ! 0 = 920
     \<and> access_count (thread_info s' ! 0) = 0
     \<and> evicters (thread_info s' ! 0) = {0}"
  using apply_rebalance_skips_unregistered [of 0 example_system
      "[[\<lparr>evicter = 0, new_size = 700, old_size = 600, bytes_loaded = 0\<rparr>,
         \<lparr>evicter = 1, new_size = 300, old_size = 400, bytes_loaded = 0\<rparr>]]" "[0]"]
  by (simp add: example_fields) (simp add: example_heap_def in_memory_size_def)

section \<open>A pass without load\<close>

text \<open>
  Claim C9. When no evicter of the snapshot has loaded any byte and the old sizes add up
  to the cache size, which is positive, the pass computes for every record a new size
  equal to its old size, \<open>extra_bytes\<close> is zero and the distribution loop returns the
  records as they are. This holds when every old size is below \<open>2 ^ 63\<close>.
\<close>

theorem no_load_keeps_sizes:
  assumes "0 < cache_size" and "1 \<le> length (concat per_thread_data)"
    and "\<forall>r\<in>set (concat per_thread_data). bytes_loaded r = 0 \<and> uint (old_size r) < 2 ^ 63"
    and "(\<Sum>r\<leftarrow>concat per_thread_data. uint (old_size r)) = uint cache_size"
  shows "calc_new_sizes cache_size (sum_bytes_loaded per_thread_data) per_thread_data
           = keep_old_sizes per_thread_data
       \<and> cache_size - sum_new_sizes (keep_old_sizes per_thread_data) = 0
       \<and> rebalance_sizes cache_size total_evicters (sum_bytes_loaded per_thread_data) per_thread_data
           = Some (keep_old_sizes per_thread_data)"
proof -
  have z: "sum_bytes_loaded per_thread_data = 0"
    using assms(3) by (intro sum_bytes_loaded_zero) blast
  have c: "calc_new_sizes cache_size 0 per_thread_data = keep_old_sizes per_thread_data"
    using assms(3) by (rule calc_new_sizes_no_load)
  have e: "cache_size - sum_new_sizes (keep_old_sizes per_thread_data) = 0"
    by (simp add: sum_new_sizes_keep_old assms(4))
  have "distribute_extra total_evicters 0 (keep_old_sizes per_thread_data)
      = Some (keep_old_sizes per_thread_data)"
    by (subst distribute_extra.simps) simp
  then have "rebalance_sizes cache_size total_evicters 0 per_thread_data
      = Some (keep_old_sizes per_thread_data)"
    by (simp only: rebalance_sizes_def c e Let_def)
  then show ?thesis using z c e by simp
qed

theorem no_load_keeps_sizes_witness:
  "calc_new_sizes 1000 (sum_bytes_loaded idle_snapshot) idle_snapshot
     = keep_old_sizes idle_snapshot
   \<and> 1000 - sum_new_sizes (keep_old_sizes idle_snapshot) = 0
   \<and> rebalance_sizes 1000 2 (sum_bytes_loaded idle_snapshot) idle_snapshot
     = Some (keep_old_sizes idle_snapshot)"
  by (rule no_load_keeps_sizes) (simp_all add: idle_snapshot_def)

text \<open>
  One evicter without load whose limit is the whole cache of \<open>2 ^ 63\<close> bytes: as
  an \<^verbatim>\<open>int64_t\<close> the limit is negative, the new size is cut to zero, and the
  distribution loop, which starts with \<open>extra_bytes\<close> at \<open>- 2 ^ 63\<close>, does not
  return.
\<close>

theorem no_load_large_size:
  "sum_bytes_loaded [[\<lparr>evicter = 0, new_size = 0, old_size = 2 ^ 63, bytes_loaded = 0\<rparr>]] = 0
   \<and> calc_new_sizes (2 ^ 63) 0
        [[\<lparr>evicter = 0, new_size = 0, old_size = 2 ^ 63, bytes_loaded = 0\<rparr>]]
       = [[\<lparr>evicter = 0, new_size = 0, old_size = 2 ^ 63, bytes_loaded = 0\<rparr>]]
   \<and> keep_old_sizes [[\<lparr>evicter = 0, new_size = 0, old_size = 2 ^ 63, bytes_loaded = 0\<rparr>]]
       = [[\<lparr>evicter = 0, new_size = 2 ^ 63, old_size = 2 ^ 63, bytes_loaded = 0\<rparr>]]
   \<and> rebalance_sizes (2 ^ 63) 1 0
        [[\<lparr>evicter = 0, new_size = 0, old_size = 2 ^ 63, bytes_loaded = 0\<rparr>]] = None"
proof -
  let ?d = "[[\<lparr>evicter = 0, new_size = 0, old_size = 2 ^ 63, bytes_loaded = 0\<rparr>]]
              :: cache_data_t list list"
  have c: "calc_new_sizes (2 ^ 63) 0 ?d = ?d"
    by (simp add: calc_new_sizes_def calc_record_def calc_new_size_def attributed_load_zero
        int64_of_double_def double_trunc_def word_sless_alt)
  have "distribute_extra 1 (2 ^ 63) ?d = None"
    by (rule distribute_extra_stuck) (simp_all add: calc_delta_def int64_div_def word_sle_eq)
  then have "rebalance_sizes (2 ^ 63) 1 0 ?d = None"
    unfolding rebalance_sizes_def Let_def c by (simp add: sum_new_sizes_def)
  then show ?thesis
    using c by (simp add: sum_bytes_loaded_def keep_old_sizes_def)
qed

end
